theory Spec2Isabelle
  imports Main "HOL-Library.Word"
begin

section \<open>Machine integers and Python errors\<close>

text \<open>
  The module \<^verbatim>\<open>mega/op/arithmethic.pyx\<close> is Cython: its parameters, fields and locals are
  declared \<^verbatim>\<open>int\<close> and \<^verbatim>\<open>long\<close>, the C types. They are modelled as 32-bit and 64-bit words
  (the LP64 data model of the Linux build that \<^verbatim>\<open>build.sh\<close> drives), read as two's complement
  with \<open>sint\<close>. Arithmetic on them wraps around, as it does in an extension module built
  with the flags of the Python interpreter (\<^verbatim>\<open>-fwrapv\<close> or \<^verbatim>\<open>-fno-strict-overflow\<close>).
  The operators \<^verbatim>\<open>%\<close> and \<^verbatim>\<open>//\<close> keep Python's meaning on C integers (the Cython default,
  \<^verbatim>\<open>cdivision=False\<close>): they round towards minus infinity, as \<open>mod\<close> and \<open>div\<close> on \<open>int\<close>
  do, and a zero divisor raises \<^verbatim>\<open>ZeroDivisionError\<close>.
\<close>

type_synonym c_int = "32 word"
type_synonym c_long = "64 word"

datatype py_error =
    ValueError string
  | TypeError string
  | ZeroDivisionError
  | OverflowError
  | DivisionOverflow

text \<open>
  The checks in front of \<^verbatim>\<open>a % b\<close> and \<^verbatim>\<open>a // b\<close> on two C ints. A zero divisor raises.
  The quotient of \<^verbatim>\<open>INT_MIN\<close> by \<open>-1\<close> is not an \<^verbatim>\<open>int\<close>; the division instruction faults
  there, which is the outcome \<open>DivisionOverflow\<close>.
\<close>

definition div_error :: "c_int \<Rightarrow> c_int \<Rightarrow> py_error option" where
  "div_error a b =
     (if b = 0 then Some ZeroDivisionError
      else if sint a = - (2 ^ 31) \<and> sint b = - 1 then Some DivisionOverflow
      else None)"

definition c_floordiv :: "c_int \<Rightarrow> c_int \<Rightarrow> c_int" where
  "c_floordiv a b = word_of_int (sint a div sint b)"

definition c_mod :: "c_int \<Rightarrow> c_int \<Rightarrow> c_int" where
  "c_mod a b = word_of_int (sint a mod sint b)"

text \<open>
  A Python integer passed for a parameter declared \<^verbatim>\<open>int\<close> is converted on entry; a value
  outside the range of the C type raises \<^verbatim>\<open>OverflowError\<close> before the body runs.
\<close>

definition to_c_int :: "int \<Rightarrow> py_error + c_int" where
  "to_c_int x =
     (if - (2 ^ 31) \<le> x \<and> x < 2 ^ 31 then Inr (word_of_int x) else Inl OverflowError)"

section \<open>The class SigmaZ\<close>

record SigmaZ =
  self_n :: c_int
  self_z :: c_int

text \<open>
  \<^verbatim>\<open>SigmaZ.__cinit__(self, int n, int z)\<close>: the two checks in the order of the source, then
  the two stores.
\<close>

definition SigmaZ_cinit :: "c_int \<Rightarrow> c_int \<Rightarrow> py_error + SigmaZ" where
  "SigmaZ_cinit n z =
     (if sint n \<le> 0 then Inl (ValueError ''only acc positive integer'')
      else if sint z < 0 then Inl (ValueError ''exponent must be non-negative'')
      else Inr \<lparr>self_n = n, self_z = z\<rparr>)"

text \<open>
  The first loop of \<^verbatim>\<open>compute\<close> (taken when \<^verbatim>\<open>self.z == 0\<close>), from the state \<open>(i, tot)\<close>
  (\<open>tot\<close> is the local \<^verbatim>\<open>total\<close>).
  \<^verbatim>\<open>i\<close> and \<^verbatim>\<open>oth_div\<close> are C ints, so \<^verbatim>\<open>i * i\<close> is a 32-bit product; \<^verbatim>\<open>total\<close> is a C long.
\<close>

partial_function (option) tau_loop ::
  "SigmaZ \<Rightarrow> c_int \<Rightarrow> c_long \<Rightarrow> (py_error + c_long) option" where
  "tau_loop self i tot =
     (if sint (i * i) \<le> sint (self_n self) then
        (case div_error (self_n self) i of
           Some e \<Rightarrow> Some (Inl e)
         | None \<Rightarrow>
            if c_mod (self_n self) i = 0 then
              (let oth_div = c_floordiv (self_n self) i in
               if i = oth_div then tau_loop self (i + 1) (tot + 1)
               else tau_loop self (i + 1) (tot + 2))
            else tau_loop self (i + 1) tot)
      else Some (Inr tot))"

text \<open>
  The second loop of \<^verbatim>\<open>compute\<close>. The expression \<^verbatim>\<open><long>(pow(b, self.z))\<close> calls the C
  library's floating-point \<^verbatim>\<open>pow\<close> and converts the double to a long; neither is code of this
  module, so the expression is the parameter \<open>pw\<close> of the model, and every theorem states
  what it needs of \<open>pw\<close>.
\<close>

partial_function (option) sigma_loop ::
  "(c_int \<Rightarrow> c_int \<Rightarrow> c_long) \<Rightarrow> SigmaZ \<Rightarrow> c_int \<Rightarrow> c_long \<Rightarrow> (py_error + c_long) option" where
  "sigma_loop pw self i tot =
     (if sint (i * i) \<le> sint (self_n self) then
        (case div_error (self_n self) i of
           Some e \<Rightarrow> Some (Inl e)
         | None \<Rightarrow>
            if c_mod (self_n self) i = 0 then
              (let oth_div = c_floordiv (self_n self) i;
                   power_i = pw i (self_z self);
                   power_oth = pw oth_div (self_z self) in
               if i = oth_div then sigma_loop pw self (i + 1) (tot + power_i)
               else sigma_loop pw self (i + 1) (tot + (power_i + power_oth)))
            else sigma_loop pw self (i + 1) tot)
      else Some (Inr tot))"

text \<open>
  \<^verbatim>\<open>SigmaZ.compute(self)\<close>. The method reads \<^verbatim>\<open>self.n\<close> and \<^verbatim>\<open>self.z\<close> and assigns to neither
  field, so the object it leaves behind is the one it was given; the model returns that
  object beside the outcome. The local \<^verbatim>\<open>limit = <int>sqrt(self.n)\<close> is assigned once and
  never read. An exception raised inside a loop leaves \<^verbatim>\<open>compute\<close> as it is (Cython 3
  propagates exceptions out of a \<^verbatim>\<open>cpdef\<close> method with a C return type). \<open>None\<close> stands
  for a call that does not return.
\<close>

definition SigmaZ_compute ::
  "(c_int \<Rightarrow> c_int \<Rightarrow> c_long) \<Rightarrow> SigmaZ \<Rightarrow> (SigmaZ \<times> (py_error + c_long)) option" where
  "SigmaZ_compute pw self =
     (if self_z self = 0 then map_option (Pair self) (tau_loop self 1 0)
      else map_option (Pair self) (sigma_loop pw self 1 0))"

text \<open>
  The same method as a run on a state, so that what it does to the instance can be stated.
  The state holds the instance itself and the two locals that live from one iteration to the
  next, \<^verbatim>\<open>i\<close> and \<^verbatim>\<open>total\<close>; a statement that assigned to \<^verbatim>\<open>self.n\<close> or \<^verbatim>\<open>self.z\<close> would be an
  update of \<open>st_self\<close>. The locals \<^verbatim>\<open>oth_div\<close>, \<^verbatim>\<open>power_i\<close> and \<^verbatim>\<open>power_oth\<close> are written before
  they are read in every iteration and are bound inside one iteration.
\<close>

record compute_state =
  st_self :: SigmaZ
  st_i :: c_int
  st_total :: c_long

text \<open>
  One pass through the body of the first loop (the \<^verbatim>\<open>if self.n % i == 0\<close> statement and
  \<^verbatim>\<open>i += 1\<close>): the state it leaves, or the exception it raises.
\<close>

definition tau_body :: "compute_state \<Rightarrow> py_error + compute_state" where
  "tau_body s =
     (case div_error (self_n (st_self s)) (st_i s) of
        Some e \<Rightarrow> Inl e
      | None \<Rightarrow>
         Inr ((if c_mod (self_n (st_self s)) (st_i s) = 0 then
                 (let oth_div = c_floordiv (self_n (st_self s)) (st_i s) in
                  if st_i s = oth_div then s\<lparr>st_total := st_total s + 1\<rparr>
                  else s\<lparr>st_total := st_total s + 2\<rparr>)
               else s)\<lparr>st_i := st_i s + 1\<rparr>))"

text \<open>One pass through the body of the second loop.\<close>

definition sigma_body ::
  "(c_int \<Rightarrow> c_int \<Rightarrow> c_long) \<Rightarrow> compute_state \<Rightarrow> py_error + compute_state" where
  "sigma_body pw s =
     (case div_error (self_n (st_self s)) (st_i s) of
        Some e \<Rightarrow> Inl e
      | None \<Rightarrow>
         Inr ((if c_mod (self_n (st_self s)) (st_i s) = 0 then
                 (let oth_div = c_floordiv (self_n (st_self s)) (st_i s);
                      power_i = pw (st_i s) (self_z (st_self s));
                      power_oth = pw oth_div (self_z (st_self s)) in
                  if st_i s = oth_div then s\<lparr>st_total := st_total s + power_i\<rparr>
                  else s\<lparr>st_total := st_total s + (power_i + power_oth)\<rparr>)
               else s)\<lparr>st_i := st_i s + 1\<rparr>))"

text \<open>
  The two \<^verbatim>\<open>while i * i <= self.n\<close> loops on the state. A run ends with the state it has
  reached and either the value of \<^verbatim>\<open>return total\<close> or the exception raised.
\<close>

partial_function (option) tau_exec ::
  "compute_state \<Rightarrow> (compute_state \<times> (py_error + c_long)) option" where
  "tau_exec s =
     (if sint (st_i s * st_i s) \<le> sint (self_n (st_self s)) then
        (case tau_body s of
           Inl e \<Rightarrow> Some (s, Inl e)
         | Inr s' \<Rightarrow> tau_exec s')
      else Some (s, Inr (st_total s)))"

partial_function (option) sigma_exec ::
  "(c_int \<Rightarrow> c_int \<Rightarrow> c_long) \<Rightarrow> compute_state
     \<Rightarrow> (compute_state \<times> (py_error + c_long)) option" where
  "sigma_exec pw s =
     (if sint (st_i s * st_i s) \<le> sint (self_n (st_self s)) then
        (case sigma_body pw s of
           Inl e \<Rightarrow> Some (s, Inl e)
         | Inr s' \<Rightarrow> sigma_exec pw s')
      else Some (s, Inr (st_total s)))"

text \<open>
  \<^verbatim>\<open>compute\<close> on the state: \<^verbatim>\<open>total = 0\<close>, \<^verbatim>\<open>i = 1\<close>, the test \<^verbatim>\<open>self.z == 0\<close>, then one of the
  two loops.
\<close>

definition SigmaZ_exec ::
  "(c_int \<Rightarrow> c_int \<Rightarrow> c_long) \<Rightarrow> SigmaZ \<Rightarrow> (compute_state \<times> (py_error + c_long)) option" where
  "SigmaZ_exec pw self =
     (let s = \<lparr>st_self = self, st_i = 1, st_total = 0\<rparr> in
      if self_z (st_self s) = 0 then tau_exec s else sigma_exec pw s)"

section \<open>The function euler_phi\<close>

text \<open>
  The inner loops \<^verbatim>\<open>while n % 2 == 0: n //= 2\<close> and \<^verbatim>\<open>while n % i == 0: n //= i\<close>, with the
  divisor as the second argument.
\<close>

partial_function (option) strip_factor :: "c_int \<Rightarrow> c_int \<Rightarrow> (py_error + c_int) option" where
  "strip_factor n d =
     (case div_error n d of
        Some e \<Rightarrow> Some (Inl e)
      | None \<Rightarrow> if c_mod n d = 0 then strip_factor (c_floordiv n d) d else Some (Inr n))"

text \<open>
  The loop \<^verbatim>\<open>while i * i <= n\<close> of \<^verbatim>\<open>euler_phi\<close>, from the state \<open>(n, result, i)\<close>; it returns
  the working copy of \<open>n\<close> and \<open>result\<close>.
\<close>

partial_function (option) phi_loop ::
  "c_int \<Rightarrow> c_int \<Rightarrow> c_int \<Rightarrow> (py_error + c_int \<times> c_int) option" where
  "phi_loop n result i =
     (if sint (i * i) \<le> sint n then
        (case div_error n i of
           Some e \<Rightarrow> Some (Inl e)
         | None \<Rightarrow>
            if c_mod n i = 0 then
              (case div_error result i of
                 Some e \<Rightarrow> Some (Inl e)
               | None \<Rightarrow>
                  (case strip_factor n i of
                     None \<Rightarrow> None
                   | Some (Inl e) \<Rightarrow> Some (Inl e)
                   | Some (Inr n') \<Rightarrow> phi_loop n' (result - c_floordiv result i) (i + 2)))
            else phi_loop n result (i + 2))
      else Some (Inr (n, result)))"

text \<open>
  \<^verbatim>\<open>isinstance(n, int)\<close> on a parameter declared \<^verbatim>\<open>int\<close>: the C value is boxed as a Python
  integer for the call, so the test holds whatever the value is.
\<close>

definition isinstance_int :: "c_int \<Rightarrow> bool" where
  "isinstance_int n = True"

definition euler_phi :: "c_int \<Rightarrow> (py_error + c_int) option" where
  "euler_phi n =
     (if sint n \<le> 0 then Some (Inl (ValueError ''only positive number will accept''))
      else if \<not> isinstance_int n then Some (Inl (TypeError ''only acc integer numbers''))
      else
        (case (if c_mod n 2 = 0
               then (case strip_factor n 2 of
                       None \<Rightarrow> None
                     | Some (Inl e) \<Rightarrow> Some (Inl e)
                     | Some (Inr n') \<Rightarrow> Some (Inr (n', n - c_floordiv n 2)))
               else Some (Inr (n, n))) of
           None \<Rightarrow> None
         | Some (Inl e) \<Rightarrow> Some (Inl e)
         | Some (Inr (n1, result1)) \<Rightarrow>
            (case phi_loop n1 result1 3 of
               None \<Rightarrow> None
             | Some (Inl e) \<Rightarrow> Some (Inl e)
             | Some (Inr (n2, result2)) \<Rightarrow>
                Some (Inr (if 1 < sint n2 then result2 - c_floordiv result2 n2 else result2)))))"

text \<open>
  A call from Python, \<^verbatim>\<open>euler_phi(x)\<close> with \<open>x\<close> a Python integer: the argument is converted
  to the C parameter, and the C result is returned as a Python integer.
\<close>

definition euler_phi_py :: "int \<Rightarrow> (py_error + int) option" where
  "euler_phi_py x =
     (case to_c_int x of
        Inl e \<Rightarrow> Some (Inl e)
      | Inr n \<Rightarrow> map_option (map_sum id sint) (euler_phi n))"

section \<open>What the functions are meant to compute\<close>

text \<open>
  The reference functions, in the words of the documentation: \<open>phi_spec n\<close> counts the
  \<open>k\<close> in \<open>[1, n]\<close> with \<open>gcd k n = 1\<close>; \<open>sigma_spec n z\<close> adds \<open>d ^ z\<close> over the
  positive divisors \<open>d\<close> of \<open>n\<close>; \<open>tau_spec n\<close> counts these divisors. All three run by
  enumeration.
\<close>

definition phi_spec :: "nat \<Rightarrow> nat" where
  "phi_spec n = card {k \<in> {1..n}. gcd k n = 1}"

definition sigma_spec :: "nat \<Rightarrow> nat \<Rightarrow> nat" where
  "sigma_spec n z = (\<Sum>d \<in> {d \<in> {1..n}. d dvd n}. d ^ z)"

definition tau_spec :: "nat \<Rightarrow> nat" where
  "tau_spec n = card {d \<in> {1..n}. d dvd n}"

definition is_prime :: "nat \<Rightarrow> bool" where
  "is_prime p = (1 < p \<and> (\<forall>d \<in> {2..<p}. \<not> d dvd p))"

text \<open>
  The exact power, reduced to 64 bits: what \<^verbatim>\<open><long>(pow(b, e))\<close> is when the floating-point
  result is the exact integer and fits a long.
\<close>

definition exact_pow :: "c_int \<Rightarrow> c_int \<Rightarrow> c_long" where
  "exact_pow b e = word_of_int (sint b ^ nat (sint e))"

section \<open>Notions used in the proofs\<close>

text \<open>
  \<open>no_small_factor b m\<close>: no number strictly between 1 and \<open>b\<close> divides \<open>m\<close>; this is
  what trial division has established about the working copy when the candidate is \<open>b\<close>.
\<close>

definition no_small_factor :: "nat \<Rightarrow> nat \<Rightarrow> bool" where
  "no_small_factor b m = (\<forall>d. 1 < d \<and> d < b \<longrightarrow> \<not> d dvd m)"

text \<open>
  The divisors of \<open>N\<close> that the divisor loop has accounted for when its counter is \<open>K\<close>:
  those below \<open>K\<close> and their complements.
\<close>

definition divs_below :: "nat \<Rightarrow> nat \<Rightarrow> nat set" where
  "divs_below N K = {d \<in> {1..N}. d dvd N \<and> (d < K \<or> N div d < K)}"

text \<open>
  The last statements of \<^verbatim>\<open>euler_phi\<close>, as a function of the state the loop leaves:
  \<^verbatim>\<open>if n > 1: result -= result // n\<close>, then \<^verbatim>\<open>return result\<close>.
\<close>

definition finish :: "c_int \<Rightarrow> c_int \<Rightarrow> c_int" where
  "finish n r = (if 1 < sint n then r - c_floordiv r n else r)"

section \<open>Counting coprime residues\<close>

lemma phi_spec_alt:
  assumes "0 < n"
  shows "phi_spec n = card {k. k < n \<and> coprime k n}"
proof (cases "n = 1")
  case True
  have "{k \<in> {1..n}. gcd k n = 1} = {1}" using True by auto
  moreover have "{k. k < n \<and> coprime k n} = {0}" using True by auto
  ultimately show ?thesis by (simp add: phi_spec_def)
next
  case False
  with assms have n: "1 < n" by simp
  have "{k \<in> {1..n}. gcd k n = 1} = {k. k < n \<and> coprime k n}"
  proof (rule set_eqI)
    fix k
    show "k \<in> {k \<in> {1..n}. gcd k n = 1} \<longleftrightarrow> k \<in> {k. k < n \<and> coprime k n}"
    proof (cases "k = 0 \<or> k = n")
      case True
      then show ?thesis using n by auto
    next
      case False
      then show ?thesis by (auto simp: coprime_iff_gcd_eq_1)
    qed
  qed
  then show ?thesis by (simp add: phi_spec_def)
qed

lemma crt_inj:
  fixes a b :: nat
  assumes "coprime a b" "x < a * b" "y < a * b" "x mod a = y mod a" "x mod b = y mod b"
  shows "x = y"
proof -
  have aux: "u = v" if "u \<le> v" "v < a * b" "u mod a = v mod a" "u mod b = v mod b" for u v
  proof -
    have "a dvd v - u" using that by (metis mod_eq_dvd_iff_nat)
    moreover have "b dvd v - u" using that by (metis mod_eq_dvd_iff_nat)
    ultimately have "a * b dvd v - u" using assms(1) by (rule divides_mult)
    moreover have "v - u < a * b" using that by simp
    ultimately have "v - u = 0" by (meson dvd_imp_le not_less zero_less_iff_neq_zero)
    with that show ?thesis by simp
  qed
  show ?thesis
  proof (cases "x \<le> y")
    case True
    then show ?thesis using aux [of x y] assms by simp
  next
    case False
    then have "y \<le> x" by simp
    then show ?thesis using aux [of y x] assms by simp
  qed
qed

lemma phi_spec_mult:
  fixes a b :: nat
  assumes ab: "coprime a b" and a: "0 < a" and b: "0 < b"
  shows "phi_spec (a * b) = phi_spec a * phi_spec b"
proof -
  define f where "f k = (k mod a, k mod b)" for k :: nat
  define U where "U = {k. k < a * b}"
  define A where "A = {k. k < a * b \<and> coprime k (a * b)}"
  define Pa where "Pa = {k. k < a \<and> coprime k a}"
  define Pb where "Pb = {k. k < b \<and> coprime k b}"
  have inj: "inj_on f U"
    by (rule inj_onI) (auto simp: f_def U_def intro: crt_inj [OF ab])
  have finU: "finite U" by (simp add: U_def)
  have "f ` U \<subseteq> {..<a} \<times> {..<b}" using a b by (auto simp: f_def U_def)
  moreover have "card (f ` U) = card ({..<a} \<times> {..<b})"
    using inj by (simp add: card_image U_def)
  ultimately have surj: "f ` U = {..<a} \<times> {..<b}"
    by (intro card_subset_eq) auto
  have cop: "coprime k (a * b) \<longleftrightarrow> coprime (k mod a) a \<and> coprime (k mod b) b" for k
    using a b by simp
  have "f ` A = Pa \<times> Pb"
  proof (rule set_eqI)
    fix p
    show "p \<in> f ` A \<longleftrightarrow> p \<in> Pa \<times> Pb"
    proof
      assume "p \<in> f ` A"
      then obtain k where k: "k \<in> A" "p = f k" by blast
      then show "p \<in> Pa \<times> Pb"
        using a b cop [of k] by (auto simp: A_def Pa_def Pb_def f_def)
    next
      assume p: "p \<in> Pa \<times> Pb"
      then have "p \<in> {..<a} \<times> {..<b}" by (auto simp: Pa_def Pb_def)
      with surj obtain k where k: "k \<in> U" "p = f k" by blast
      with p have "coprime (k mod a) a" "coprime (k mod b) b"
        by (auto simp: Pa_def Pb_def f_def)
      with cop [of k] k have "k \<in> A" by (simp add: A_def U_def)
      with k show "p \<in> f ` A" by blast
    qed
  qed
  moreover have "inj_on f A"
    using inj by (rule inj_on_subset) (auto simp: A_def U_def)
  ultimately have "card A = card (Pa \<times> Pb)" by (metis card_image)
  then have "card A = card Pa * card Pb" by (simp add: card_cartesian_product)
  then show ?thesis
    using a b by (simp add: phi_spec_alt A_def Pa_def Pb_def)
qed

lemma irreducible_coprime_iff:
  fixes p :: nat
  assumes p: "1 < p" and irr: "no_small_factor p p"
  shows "coprime j p \<longleftrightarrow> \<not> p dvd j"
proof
  assume "coprime j p"
  then show "\<not> p dvd j" using p by (auto simp: coprime_def)
next
  assume np: "\<not> p dvd j"
  let ?g = "gcd j p"
  have gp: "?g dvd p" by simp
  then have "?g \<le> p" using p by (simp add: dvd_imp_le)
  moreover have "?g \<noteq> p" using np by (metis gcd_dvd1)
  moreover have "?g \<noteq> 0" using p by simp
  ultimately have "?g = 1 \<or> (1 < ?g \<and> ?g < p)" by linarith
  with irr gp have "?g = 1" by (auto simp: no_small_factor_def)
  then show "coprime j p" by (simp add: coprime_iff_gcd_eq_1)
qed

lemma phi_spec_power:
  fixes p :: nat
  assumes p: "1 < p" and irr: "no_small_factor p p" and k: "0 < k"
  shows "phi_spec (p ^ k) = p ^ k - p ^ (k - 1)"
proof -
  obtain m where m: "k = Suc m" using k by (cases k) auto
  have cop: "coprime j (p ^ k) \<longleftrightarrow> \<not> p dvd j" for j
    using irreducible_coprime_iff [OF p irr] k by simp
  have "{j. j < p ^ k \<and> coprime j (p ^ k)} = {..<p ^ k} - (\<lambda>q. p * q) ` {..<p ^ m}"
  proof (rule set_eqI)
    fix j
    show "j \<in> {j. j < p ^ k \<and> coprime j (p ^ k)} \<longleftrightarrow> j \<in> {..<p ^ k} - (\<lambda>q. p * q) ` {..<p ^ m}"
    proof (cases "p dvd j")
      case True
      then obtain q where q: "j = p * q" by (auto simp: dvd_def)
      have "j < p ^ k \<Longrightarrow> q < p ^ m" using p q m by simp
      then show ?thesis using True q cop [of j] by auto
    next
      case False
      then show ?thesis using cop [of j] by auto
    qed
  qed
  moreover have "(\<lambda>q. p * q) ` {..<p ^ m} \<subseteq> {..<p ^ k}" using p m by auto
  moreover have "card ((\<lambda>q. p * q) ` {..<p ^ m}) = p ^ m"
    using p by (subst card_image) (auto simp: inj_on_def)
  ultimately have "card {j. j < p ^ k \<and> coprime j (p ^ k)} = p ^ k - p ^ m"
    by (simp add: card_Diff_subset)
  moreover have "0 < p ^ k" using p by simp
  ultimately show ?thesis using m by (simp add: phi_spec_alt)
qed

lemma phi_spec_1: "phi_spec 1 = 1"
  by (simp add: phi_spec_alt)

lemma phi_spec_pos: "0 < n \<Longrightarrow> 0 < phi_spec n"
proof -
  assume "0 < n"
  then have "1 \<in> {k \<in> {1..n}. gcd k n = 1}" by simp
  moreover have "finite {k \<in> {1..n}. gcd k n = 1}" by simp
  ultimately show ?thesis unfolding phi_spec_def by (metis card_gt_0_iff empty_iff)
qed

lemma phi_spec_less: "1 < n \<Longrightarrow> phi_spec n < n"
proof -
  assume n: "1 < n"
  have "k < n" if "k \<le> n" "gcd k n = 1" for k
  proof -
    have "k \<noteq> n" using that n by auto
    with that show ?thesis by simp
  qed
  then have "{k \<in> {1..n}. gcd k n = 1} \<subseteq> {1..<n}" by auto
  then have "card {k \<in> {1..n}. gcd k n = 1} \<le> card {1..<n}" by (intro card_mono) auto
  then show ?thesis using n by (simp add: phi_spec_def)
qed

lemma irreducible_phi_spec:
  fixes p :: nat
  assumes "1 < p" "no_small_factor p p"
  shows "phi_spec p = p - 1"
  using phi_spec_power [OF assms, of 1] by simp

lemma nsf_dvd: "no_small_factor b m \<Longrightarrow> m' dvd m \<Longrightarrow> no_small_factor b m'"
  unfolding no_small_factor_def by (meson dvd_trans)

lemma nsf_self: "no_small_factor b m \<Longrightarrow> b dvd m \<Longrightarrow> no_small_factor b b"
  by (rule nsf_dvd)

lemma nsf_step:
  assumes "no_small_factor b m" "odd b" "3 \<le> b" "\<not> b dvd m"
  shows "no_small_factor (b + 2) m"
  unfolding no_small_factor_def
proof (intro allI impI)
  fix d
  assume d: "1 < d \<and> d < b + 2"
  then consider "d < b" | "d = b" | "d = b + 1" by linarith
  then show "\<not> d dvd m"
  proof cases
    case 1
    then show ?thesis using assms(1) d by (simp add: no_small_factor_def)
  next
    case 2
    then show ?thesis using assms(4) by simp
  next
    case 3
    then have "2 dvd d" using assms(2) by simp
    moreover have "\<not> 2 dvd m" using assms(1,3) by (simp add: no_small_factor_def)
    ultimately show ?thesis by (meson dvd_trans)
  qed
qed

lemma nsf_square_le:
  assumes "no_small_factor b m" "1 < d" "d < m" "d dvd m"
  shows "b * b \<le> m"
proof -
  obtain e where e: "m = d * e" using assms(4) by (auto simp: dvd_def)
  have "1 < e" using e assms(2,3) by (cases "e = 0"; cases "e = 1") auto
  have "e dvd m" using e by simp
  have "\<not> d < b" using assms by (auto simp: no_small_factor_def)
  moreover have "\<not> e < b" using assms(1) \<open>1 < e\<close> \<open>e dvd m\<close> by (auto simp: no_small_factor_def)
  ultimately have "b * b \<le> d * e" by (simp add: mult_le_mono)
  then show ?thesis using e by simp
qed

lemma nsf_irreducible_le:
  assumes "no_small_factor b m" "1 < m"
  shows "b \<le> m"
proof (rule ccontr)
  assume "\<not> b \<le> m"
  then have "1 < m \<and> m < b" using assms(2) by simp
  then have "\<not> m dvd m" using assms(1) unfolding no_small_factor_def by blast
  then show False by simp
qed

lemma phi_step:
  fixes S N N' b k R :: nat
  assumes R: "R = phi_spec S * N" and N: "N = N' * b ^ k" and k: "0 < k"
    and cop: "coprime S N" and b: "1 < b" and irr: "no_small_factor b b"
    and nd: "\<not> b dvd N'" and S: "0 < S"
  shows "R - R div b = phi_spec (S * b ^ k) * N'" and "coprime (S * b ^ k) N'"
proof -
  obtain j where j: "k = Suc j" using k by (cases k) auto
  have "coprime S (b ^ k)" using cop N by simp
  then have "phi_spec (S * b ^ k) = phi_spec S * phi_spec (b ^ k)"
    using S b by (simp add: phi_spec_mult)
  also have "phi_spec (b ^ k) = b ^ k - b ^ (k - 1)"
    by (rule phi_spec_power [OF b irr k])
  finally have ps: "phi_spec (S * b ^ k) = phi_spec S * (b ^ k - b ^ j)" using j by simp
  have "R = (phi_spec S * N' * b ^ j) * b" using R N j by simp
  then have "R div b = phi_spec S * N' * b ^ j" using b by simp
  then have "R - R div b = phi_spec S * N' * b ^ k - phi_spec S * N' * b ^ j"
    using R N by (simp add: mult.assoc)
  also have "\<dots> = phi_spec S * N' * (b ^ k - b ^ j)" by (simp add: diff_mult_distrib2)
  finally show "R - R div b = phi_spec (S * b ^ k) * N'" using ps by (simp add: mult.commute mult.left_commute)
  have "coprime S N'" using cop N by simp
  moreover have "coprime N' b" using irreducible_coprime_iff [OF b irr] nd by simp
  then have "coprime (b ^ k) N'" by (simp add: coprime_commute)
  ultimately show "coprime (S * b ^ k) N'" by simp
qed

lemma phi_last:
  fixes S N R :: nat
  assumes R: "R = phi_spec S * N" and cop: "coprime S N" and N: "1 < N"
    and irr: "no_small_factor N N" and S: "0 < S"
  shows "R - R div N = phi_spec (S * N)"
proof -
  have "R div N = phi_spec S" using R N by simp
  then have "R - R div N = phi_spec S * (N - 1)" using R by (simp add: diff_mult_distrib2)
  also have "\<dots> = phi_spec S * phi_spec N" using irreducible_phi_spec [OF N irr] by simp
  also have "\<dots> = phi_spec (S * N)" using cop S N by (simp add: phi_spec_mult)
  finally show ?thesis .
qed

section \<open>Divisors in complementary pairs\<close>

lemma finite_divs_below [simp]: "finite (divs_below N K)"
  by (simp add: divs_below_def)

lemma divs_below_1: "divs_below N 1 = {}"
proof -
  have "\<not> N div d < 1" if "1 \<le> d" "d \<le> N" for d
    using that by (simp add: div_greater_zero_iff)
  then show ?thesis by (auto simp: divs_below_def)
qed

lemma dvd_div_cancel: "(d :: nat) dvd N \<Longrightarrow> d * (N div d) = N"
  by simp

lemma divs_below_all:
  assumes "N < K * K"
  shows "divs_below N K = {d \<in> {1..N}. d dvd N}"
proof -
  have "d < K \<or> N div d < K" if "d dvd N" for d
  proof (rule ccontr)
    assume "\<not> (d < K \<or> N div d < K)"
    then have "K * K \<le> d * (N div d)" by (intro mult_le_mono) simp_all
    then show False using assms that by simp
  qed
  then show ?thesis by (auto simp: divs_below_def)
qed

lemma divs_below_step_ndvd:
  assumes "\<not> K dvd N"
  shows "divs_below N (Suc K) = divs_below N K"
proof -
  have "d < K \<or> N div d < K" if "d dvd N" "d < Suc K \<or> N div d < Suc K" for d
  proof (rule ccontr)
    assume "\<not> (d < K \<or> N div d < K)"
    with that(2) have "d = K \<or> N div d = K" by linarith
    then have "K dvd N" using that(1) by (metis dvd_div_cancel dvd_triv_right)
    then show False using assms by simp
  qed
  then show ?thesis by (auto simp: divs_below_def)
qed

lemma divs_below_step_dvd:
  assumes N: "0 < N" and K: "1 \<le> K" and sq: "K * K \<le> N" and dv: "K dvd N"
  shows "divs_below N (Suc K) = insert K (insert (N div K) (divs_below N K))"
    and "K \<notin> divs_below N K" and "N div K \<notin> divs_below N K"
proof -
  have KN: "K \<le> N" using K sq by (metis le_trans le_square)
  have q: "K * (N div K) = N" using dv by simp
  have qK: "K \<le> N div K"
  proof (rule ccontr)
    assume "\<not> K \<le> N div K"
    then have "K * (N div K) < K * K" using K by simp
    then show False using q sq by simp
  qed
  have qq: "N div (N div K) = K" using q qK K by (metis div_mult_self_is_m le_trans less_eq_Suc_le One_nat_def)
  have qN: "N div K \<le> N" by simp
  show "K \<notin> divs_below N K" using qK by (simp add: divs_below_def)
  show "N div K \<notin> divs_below N K" using qK qq by (simp add: divs_below_def)
  show "divs_below N (Suc K) = insert K (insert (N div K) (divs_below N K))"
  proof (rule set_eqI)
    fix d
    show "d \<in> divs_below N (Suc K) \<longleftrightarrow> d \<in> insert K (insert (N div K) (divs_below N K))"
    proof
      assume d: "d \<in> divs_below N (Suc K)"
      then have dd: "d dvd N" "1 \<le> d" "d \<le> N" by (simp_all add: divs_below_def)
      show "d \<in> insert K (insert (N div K) (divs_below N K))"
      proof (cases "d < K \<or> N div d < K")
        case True
        then show ?thesis using dd by (simp add: divs_below_def)
      next
        case False
        with d have "d = K \<or> N div d = K" by (auto simp: divs_below_def)
        moreover have "d = N div K" if "N div d = K"
        proof -
          have "d * K = N" using dd(1) that by auto
          then show ?thesis using K by auto
        qed
        ultimately show ?thesis by blast
      qed
    next
      assume "d \<in> insert K (insert (N div K) (divs_below N K))"
      then consider "d = K" | "d = N div K" | "d \<in> divs_below N K" by blast
      then show "d \<in> divs_below N (Suc K)"
      proof cases
        case 1
        then show ?thesis using dv K KN by (simp add: divs_below_def)
      next
        case 2
        have "N div K dvd N" using q by (metis dvd_triv_right)
        then show ?thesis using 2 qq qK K by (simp add: divs_below_def)
      next
        case 3
        then show ?thesis by (auto simp: divs_below_def)
      qed
    qed
  qed
qed

lemma sum_divs_below_step:
  fixes G :: "nat \<Rightarrow> 'a :: comm_monoid_add"
  assumes N: "0 < N" and K: "1 \<le> K" and sq: "K * K \<le> N" and dv: "K dvd N"
  shows "sum G (divs_below N (Suc K)) =
    sum G (divs_below N K) + (if K = N div K then G K else G K + G (N div K))"
proof -
  note s = divs_below_step_dvd [OF assms]
  show ?thesis
  proof (cases "K = N div K")
    case True
    then have "divs_below N (Suc K) = insert K (divs_below N K)" using s(1) by simp
    then show ?thesis using s(2) True by (simp add: add.commute)
  next
    case False
    have "sum G (divs_below N (Suc K)) = G K + (G (N div K) + sum G (divs_below N K))"
      using s False by simp
    then show ?thesis using False by (simp add: add.commute add.left_commute)
  qed
qed

section \<open>C ints as natural numbers\<close>

lemma sint_c_int_of_int:
  "- 2147483648 \<le> v \<Longrightarrow> v < 2147483648 \<Longrightarrow> sint (word_of_int v :: c_int) = v"
  by (simp add: sint_sbintrunc' signed_take_bit_int_eq_self)

lemma sint_c_int_bounds: "- 2147483648 \<le> sint (x :: c_int) \<and> sint x < 2147483648"
  using sint_ge [of x] sint_lt [of x] by simp

lemma sint_eqI: "sint (x :: c_int) = sint y \<Longrightarrow> x = y"
  by (rule signed_word_eqI)

lemma sint_nat_bound: "sint (x :: c_int) = int X \<Longrightarrow> X < 2147483648"
  using sint_c_int_bounds [of x] by simp

lemma sint_c_int_of_nat: "X < 2147483648 \<Longrightarrow> sint (word_of_nat X :: c_int) = int X"
  using sint_c_int_of_int [of "int X"] by simp

lemma c_int_eq_of_nat:
  assumes "sint (x :: c_int) = int X"
  shows "x = word_of_nat X"
proof -
  have "word_of_int (sint x) = x" by simp
  then have "word_of_int (int X) = x" unfolding assms .
  then show ?thesis by simp
qed

lemma sint_add_nat:
  assumes "sint (x :: c_int) = int X" "sint y = int Y" "X + Y < 2147483648"
  shows "sint (x + y) = int (X + Y)"
proof -
  have "x + y = word_of_nat (X + Y)"
    by (simp add: c_int_eq_of_nat [OF assms(1)] c_int_eq_of_nat [OF assms(2)])
  then show ?thesis using sint_c_int_of_nat [OF assms(3)] by simp
qed

lemma sint_sub_nat:
  assumes "sint (x :: c_int) = int X" "sint y = int Y" "Y \<le> X"
  shows "sint (x - y) = int (X - Y)"
proof -
  have "x - y = word_of_nat (X - Y)"
    using assms(3) by (simp add: c_int_eq_of_nat [OF assms(1)] c_int_eq_of_nat [OF assms(2)] of_nat_diff)
  moreover have "X - Y < 2147483648" using sint_nat_bound [OF assms(1)] by simp
  ultimately show ?thesis using sint_c_int_of_nat [of "X - Y"] by simp
qed

lemma sint_mult_nat:
  assumes "sint (x :: c_int) = int X" "sint y = int Y" "X * Y < 2147483648"
  shows "sint (x * y) = int (X * Y)"
proof -
  have "x * y = word_of_nat (X * Y)"
    by (simp add: c_int_eq_of_nat [OF assms(1)] c_int_eq_of_nat [OF assms(2)])
  then show ?thesis using sint_c_int_of_nat [OF assms(3)] by simp
qed

lemma sint_c_floordiv_nat:
  assumes "sint a = int A" "sint b = int B"
  shows "sint (c_floordiv a b) = int (A div B)"
proof -
  have "A div B < 2147483648"
    by (rule le_less_trans [OF div_le_dividend sint_nat_bound [OF assms(1)]])
  then have "sint (word_of_nat (A div B) :: c_int) = int (A div B)"
    by (rule sint_c_int_of_nat)
  then show ?thesis
    by (simp add: c_floordiv_def assms zdiv_int [symmetric])
qed

lemma c_mod_eq_0_nat:
  assumes "sint a = int A" "sint b = int B"
  shows "c_mod a b = 0 \<longleftrightarrow> A mod B = 0"
proof -
  have "A mod B < 2147483648"
    by (rule le_less_trans [OF mod_less_eq_dividend sint_nat_bound [OF assms(1)]])
  then have "sint (word_of_nat (A mod B) :: c_int) = int (A mod B)"
    by (rule sint_c_int_of_nat)
  then have "sint (c_mod a b) = int (A mod B)"
    by (simp add: c_mod_def assms zmod_int [symmetric])
  then show ?thesis by (metis of_nat_eq_0_iff signed_0 signed_word_eqI)
qed

lemma div_error_nat: "sint a = int A \<Longrightarrow> sint b = int B \<Longrightarrow> 0 < B \<Longrightarrow> div_error a b = None"
  by (auto simp: div_error_def)

lemma strip_factor_nat:
  assumes "sint n = int N" "sint d = int D" "0 < N" "1 < D"
  shows "\<exists>n' N' k. strip_factor n d = Some (Inr n') \<and> sint n' = int N' \<and> N = N' * D ^ k
           \<and> \<not> D dvd N' \<and> 0 < N' \<and> (D dvd N \<longrightarrow> 0 < k)"
  using assms
proof (induction N arbitrary: n rule: less_induct)
  case (less N)
  have de: "div_error n d = None" using less.prems by (simp add: div_error_nat)
  show ?case
  proof (cases "D dvd N")
    case False
    then have "c_mod n d \<noteq> 0" using c_mod_eq_0_nat [OF less.prems(1,2)] by auto
    then have "strip_factor n d = Some (Inr n)"
      using de by (subst strip_factor.simps) simp
    then show ?thesis using less.prems False by (intro exI [of _ n] exI [of _ N] exI [of _ 0]) simp
  next
    case True
    then have m0: "c_mod n d = 0" using c_mod_eq_0_nat [OF less.prems(1,2)] by auto
    have q: "sint (c_floordiv n d) = int (N div D)"
      using less.prems by (simp add: sint_c_floordiv_nat)
    have lt: "N div D < N" using less.prems by simp
    have pos: "0 < N div D" using True less.prems by (auto simp: dvd_def)
    from less.IH [OF lt q less.prems(2) pos less.prems(4)]
    obtain n' N' k where r: "strip_factor (c_floordiv n d) d = Some (Inr n')" "sint n' = int N'"
      "N div D = N' * D ^ k" "\<not> D dvd N'" "0 < N'" by blast
    have "strip_factor n d = Some (Inr n')"
      using de m0 r(1) by (subst strip_factor.simps) simp
    moreover have "N = N div D * D" using True by simp
    then have "N = N' * D ^ Suc k" using r(3) by (simp add: mult.assoc mult.commute)
    ultimately show ?thesis using r by (intro exI [of _ n'] exI [of _ N'] exI [of _ "Suc k"]) simp
  qed
qed

lemma c_mod_eq_0_iff:
  assumes "b \<noteq> 0"
  shows "c_mod a b = 0 \<longleftrightarrow> sint b dvd sint a"
proof -
  have sb: "sint b \<noteq> 0" using assms by (metis signed_0 signed_word_eqI)
  have "\<bar>sint a mod sint b\<bar> < \<bar>sint b\<bar>" using sb by (simp add: abs_mod_less)
  then have "- 2147483648 \<le> sint a mod sint b \<and> sint a mod sint b < 2147483648"
    using sint_c_int_bounds [of b] by linarith
  then have "sint (c_mod a b) = sint a mod sint b"
    by (simp add: c_mod_def sint_c_int_of_int)
  then have "c_mod a b = 0 \<longleftrightarrow> sint a mod sint b = 0" by (metis signed_0 signed_word_eqI)
  then show ?thesis by (simp add: dvd_eq_mod_eq_0)
qed

lemma unat_add2_c_int:
  "unat (i :: c_int) \<le> 4294967293 \<Longrightarrow> unat (i + 2) = unat i + 2"
  by (simp add: unat_word_ariths)

lemma phi_loop_one:
  assumes "odd (unat i)" "3 \<le> unat i" "unat i \<le> 4294967293"
  shows "phi_loop 1 r i = Some (Inr (1, r))"
  using assms
proof (induction "4294967293 - unat i" arbitrary: i rule: less_induct)
  case less
  show ?case
  proof (cases "sint (i * i) \<le> sint (1 :: c_int)")
    case False
    then show ?thesis by (subst phi_loop.simps) simp
  next
    case True
    have ne: "i \<noteq> - 3"
    proof
      assume "i = - 3"
      then have "i * i = 9" by simp
      with True show False by simp
    qed
    have "unat i \<noteq> 4294967293"
    proof
      assume "unat i = 4294967293"
      then have "i = word_of_nat 4294967293" by (metis of_nat_unat ucast_id)
      then show False using ne by simp
    qed
    then have le: "unat i \<le> 4294967291" using less.prems by presburger
    have u2: "unat (i + 2) = unat i + 2" using le by (simp add: unat_add2_c_int)
    have i0: "i \<noteq> 0" using less.prems by auto
    have i1: "i \<noteq> 1" using less.prems by auto
    have im1: "i \<noteq> - 1"
    proof
      assume "i = - 1"
      then have "unat i = 4294967295" by (simp add: unsigned_minus_1_eq_mask mask_eq_exp_minus_1)
      then show False using less.prems by simp
    qed
    have "\<not> sint i dvd 1"
    proof
      assume "sint i dvd 1"
      then have "\<bar>sint i\<bar> = 1" by (simp add: zdvd1_eq)
      then have "sint i = 1 \<or> sint i = - 1" by linarith
      then have "sint i = sint (1 :: c_int) \<or> sint i = sint (- 1 :: c_int)" by simp
      then have "i = 1 \<or> i = - 1" by (blast intro: signed_word_eqI)
      then show False using i1 im1 by simp
    qed
    then have m: "c_mod 1 i \<noteq> 0" using c_mod_eq_0_iff [OF i0, of 1] by simp
    have de: "div_error 1 i = None" using i0 by (simp add: div_error_def)
    have "phi_loop 1 r i = phi_loop 1 r (i + 2)"
      using True m de by (subst phi_loop.simps) simp
    also have "\<dots> = Some (Inr (1, r))"
    proof (rule less.hyps)
      show "4294967293 - unat (i + 2) < 4294967293 - unat i" using u2 le by simp
      show "odd (unat (i + 2))" using u2 less.prems by simp
      show "3 \<le> unat (i + 2)" using u2 less.prems by simp
      show "unat (i + 2) \<le> 4294967293" using u2 le by simp
    qed
    finally show ?thesis .
  qed
qed

section \<open>The totient loop\<close>

lemma unat_of_sint_nat:
  assumes "sint (x :: c_int) = int X"
  shows "unat x = X"
proof -
  have "X < 2147483648" by (rule sint_nat_bound [OF assms])
  then have "X mod 4294967296 = X" by simp
  then show ?thesis by (simp add: c_int_eq_of_nat [OF assms] unat_of_nat)
qed

lemma div_error_pos: "0 < sint b \<Longrightarrow> div_error a b = None"
  by (auto simp: div_error_def)

lemma phi_loop_irreducible:
  assumes "sint n = int N" "1 < N" "no_small_factor N N" "sint i = int I" "odd I" "3 \<le> I" "I \<le> N"
  shows "\<exists>n' r'. phi_loop n r i = Some (Inr (n', r')) \<and> finish n' r' = r - c_floordiv r n"
  using assms(4-7)
proof (induction "N - I" arbitrary: i I rule: less_induct)
  case less
  note n = assms(1-3)
  have Nb: "N < 2147483648" by (rule sint_nat_bound [OF n(1)])
  have oddN: "odd N"
  proof
    assume "even N"
    moreover have "2 < N" using less.prems n(2) by linarith
    ultimately show False using n(3) by (simp add: no_small_factor_def)
  qed
  have ipos: "0 < sint i" using less.prems by simp
  show ?case
  proof (cases "sint (i * i) \<le> sint n")
    case False
    then have "phi_loop n r i = Some (Inr (n, r))" by (subst phi_loop.simps) simp
    moreover have "finish n r = r - c_floordiv r n" using n by (simp add: finish_def)
    ultimately show ?thesis by blast
  next
    case True
    have de: "div_error n i = None" by (rule div_error_pos [OF ipos])
    show ?thesis
    proof (cases "I = N")
      case False
      then have lt: "I < N" using less.prems by simp
      then have "\<not> I dvd N" using n(3) less.prems by (simp add: no_small_factor_def)
      then have m: "c_mod n i \<noteq> 0"
        using c_mod_eq_0_nat [OF n(1) less.prems(1)] by (simp add: dvd_eq_mod_eq_0)
      have "I + 1 \<noteq> N" using oddN less.prems(2) by auto
      then have le2: "I + 2 \<le> N" using lt by simp
      have s2: "sint (i + 2) = int (I + 2)"
        by (rule sint_add_nat [OF less.prems(1)]) (use le2 Nb in simp_all)
      have "phi_loop n r i = phi_loop n r (i + 2)"
        using True de m by (subst phi_loop.simps) simp
      moreover have "\<exists>n' r'. phi_loop n r (i + 2) = Some (Inr (n', r')) \<and> finish n' r' = r - c_floordiv r n"
        by (rule less.hyps [OF _ s2]) (use le2 lt less.prems in simp_all)
      ultimately show ?thesis by simp
    next
      case True
      then have in_eq: "i = n" using n(1) less.prems(1) by (metis signed_word_eqI)
      have m: "c_mod n i = 0"
        using c_mod_eq_0_nat [OF n(1) less.prems(1)] True by simp
      have der: "div_error r i = None" by (rule div_error_pos [OF ipos])
      obtain n' N' k where st: "strip_factor n i = Some (Inr n')" "sint n' = int N'"
        "N = N' * I ^ k" "0 < N'" "I dvd N \<longrightarrow> 0 < k"
        using strip_factor_nat [OF n(1) less.prems(1)] n(2) less.prems(3) by force
      obtain j where j: "k = Suc j" using st(5) True by (cases k) auto
      have "N * 1 = N * (N' * N ^ j)" using st(3) True j by simp
      then have "N' * N ^ j = 1" using n(2) by (metis mult_cancel1 not_one_less_zero)
      then have "N' = 1" by simp
      then have n'1: "n' = 1" using c_int_eq_of_nat [OF st(2)] by simp
      have ui: "unat i = I" by (rule unat_of_sint_nat [OF less.prems(1)])
      have u2: "unat (i + 2) = I + 2" using ui Nb less.prems by (simp add: unat_add2_c_int)
      have "phi_loop n r i = phi_loop 1 (r - c_floordiv r i) (i + 2)"
        using \<open>sint (i * i) \<le> sint n\<close> de m der st(1) n'1 by (subst phi_loop.simps) simp
      also have "\<dots> = Some (Inr (1, r - c_floordiv r i))"
        by (rule phi_loop_one) (use u2 less.prems Nb in simp_all)
      finally show ?thesis by (simp add: finish_def in_eq)
    qed
  qed
qed

lemma phi_loop_correct:
  assumes "sint n = int N" "sint r = int R" "sint i = int I" "odd I" "3 \<le> I" "0 < N"
    "no_small_factor I N" "N0 = S * N" "coprime S N" "R = phi_spec S * N" "N0 < 2147483648" "0 < S"
  shows "\<exists>n' r'. phi_loop n r i = Some (Inr (n', r')) \<and> sint (finish n' r') = int (phi_spec N0)"
  using assms
proof (induction "2 * N - I" arbitrary: n r i N R I S rule: less_induct)
  case less
  note p = less.prems
  have ipos: "0 < sint i" using p by simp
  consider "N = 1" | "1 < N" "no_small_factor N N" | d where "1 < d" "d < N" "d dvd N"
  proof -
    have "N = 1 \<or> (1 < N \<and> no_small_factor N N) \<or> (\<exists>d. 1 < d \<and> d < N \<and> d dvd N)"
      using p(6) unfolding no_small_factor_def by (cases "N = 1") auto
    then show thesis using that by blast
  qed
  then show ?case
  proof cases
    case 1
    then have n1: "n = 1" using c_int_eq_of_nat [OF p(1)] by simp
    have ui: "unat i = I" by (rule unat_of_sint_nat [OF p(3)])
    have "I < 2147483648" by (rule sint_nat_bound [OF p(3)])
    then have "phi_loop 1 r i = Some (Inr (1, r))"
      by (intro phi_loop_one) (use ui p in simp_all)
    moreover have "sint (finish 1 r) = int (phi_spec N0)"
      using p 1 by (simp add: finish_def)
    ultimately show ?thesis using n1 by blast
  next
    case 2
    have le: "I \<le> N" by (rule nsf_irreducible_le [OF p(7) 2(1)])
    obtain n' r' where l: "phi_loop n r i = Some (Inr (n', r'))" "finish n' r' = r - c_floordiv r n"
      using phi_loop_irreducible [OF p(1) 2 p(3,4,5) le] by blast
    have "sint (c_floordiv r n) = int (R div N)" by (rule sint_c_floordiv_nat [OF p(2,1)])
    then have "sint (r - c_floordiv r n) = int (R - R div N)"
      by (intro sint_sub_nat [OF p(2)]) simp_all
    also have "R - R div N = phi_spec (S * N)" by (rule phi_last [OF p(10,9) 2 p(12)])
    finally show ?thesis using l p(8) by auto
  next
    case 3
    have sq: "I * I \<le> N" by (rule nsf_square_le [OF p(7) 3])
    have Nb: "N < 2147483648" by (rule sint_nat_bound [OF p(1)])
    have "sint (i * i) = int (I * I)"
      by (rule sint_mult_nat [OF p(3,3)]) (use sq Nb in simp)
    moreover have "int (I * I) \<le> int N" using sq by (simp only: of_nat_le_iff)
    ultimately have cond: "sint (i * i) \<le> sint n" using p(1) by simp
    have IN: "I \<le> N" using sq p(5) by (metis le_trans le_square)
    have "3 * I \<le> I * I" using p(5) by simp
    then have I2: "I + 2 < 2147483648" using sq Nb p(5) by linarith
    have s2: "sint (i + 2) = int (I + 2)"
      by (rule sint_add_nat [OF p(3)]) (use I2 in simp_all)
    have de: "div_error n i = None" by (rule div_error_pos [OF ipos])
    show ?thesis
    proof (cases "I dvd N")
      case False
      then have m: "c_mod n i \<noteq> 0"
        using c_mod_eq_0_nat [OF p(1,3)] by (simp add: dvd_eq_mod_eq_0)
      have "phi_loop n r i = phi_loop n r (i + 2)"
        using cond de m by (subst phi_loop.simps) simp
      moreover have "\<exists>n' r'. phi_loop n r (i + 2) = Some (Inr (n', r')) \<and> sint (finish n' r') = int (phi_spec N0)"
      proof (rule less.hyps [OF _ p(1,2) s2 _ _ p(6) _ p(8,9,10,11,12)])
        show "2 * N - (I + 2) < 2 * N - I" using IN p(6) by simp
        show "odd (I + 2)" using p(4) by simp
        show "3 \<le> I + 2" using p(5) by simp
        show "no_small_factor (I + 2) N" by (rule nsf_step [OF p(7,4,5) False])
      qed
      ultimately show ?thesis by simp
    next
      case True
      then have m: "c_mod n i = 0"
        using c_mod_eq_0_nat [OF p(1,3)] by (simp add: dvd_eq_mod_eq_0)
      have der: "div_error r i = None" by (rule div_error_pos [OF ipos])
      have I1: "1 < I" using p(5) by simp
      obtain n' N' k where st: "strip_factor n i = Some (Inr n')" "sint n' = int N'"
        "N = N' * I ^ k" "\<not> I dvd N'" "0 < N'" "0 < k"
        using strip_factor_nat [OF p(1,3,6) I1] True by force
      have irr: "no_small_factor I I" by (rule nsf_self [OF p(7) True])
      have r': "sint (r - c_floordiv r i) = int (R - R div I)"
        using sint_c_floordiv_nat [OF p(2,3)] by (intro sint_sub_nat [OF p(2)]) simp_all
      have N'dvd: "N' dvd N" using st(3) by simp
      have N'le: "3 * N' \<le> N"
      proof -
        have "I ^ 1 \<le> I ^ k" using st(6) I1 by (intro power_increasing) simp_all
        then have "3 \<le> I ^ k" using p(5) by simp
        then have "N' * 3 \<le> N' * I ^ k" by (rule mult_le_mono2)
        then show ?thesis using st(3) by (simp add: mult.commute)
      qed
      have "phi_loop n r i = phi_loop n' (r - c_floordiv r i) (i + 2)"
        using cond de m der st(1) by (subst phi_loop.simps) simp
      moreover have "\<exists>n'' r''. phi_loop n' (r - c_floordiv r i) (i + 2) = Some (Inr (n'', r''))
          \<and> sint (finish n'' r'') = int (phi_spec N0)"
      proof (rule less.hyps [OF _ st(2) r' s2 _ _ st(5) _ _ _ _ p(11)])
        show "2 * N' - (I + 2) < 2 * N - I" using IN N'le st(5) by simp
        show "odd (I + 2)" using p(4) by simp
        show "3 \<le> I + 2" using p(5) by simp
        show "no_small_factor (I + 2) N'"
          by (rule nsf_step [OF nsf_dvd [OF p(7) N'dvd] p(4,5) st(4)])
        show "N0 = (S * I ^ k) * N'" using p(8) st(3) by (simp add: mult.assoc mult.commute)
        show "coprime (S * I ^ k) N'"
          by (rule phi_step(2) [OF p(10) st(3,6) p(9) I1 irr st(4) p(12)])
        show "R - R div I = phi_spec (S * I ^ k) * N'"
          by (rule phi_step(1) [OF p(10) st(3,6) p(9) I1 irr st(4) p(12)])
        show "0 < S * I ^ k" using p(12) I1 by simp
      qed
      ultimately show ?thesis by simp
    qed
  qed
qed

lemma nsf_3: "odd m \<Longrightarrow> no_small_factor 3 m"
  unfolding no_small_factor_def
proof (intro allI impI)
  fix d :: nat
  assume "odd m" "1 < d \<and> d < 3"
  then have "d = 2" by simp
  then show "\<not> d dvd m" using \<open>odd m\<close> by simp
qed

lemma euler_phi_total:
  assumes n: "sint n = int N" and N: "0 < N"
  shows "\<exists>x. euler_phi n = Some (Inr x) \<and> sint x = int (phi_spec N)"
proof -
  have Nb: "N < 2147483648" by (rule sint_nat_bound [OF n])
  have s2: "sint (2 :: c_int) = int 2" by simp
  have s3: "sint (3 :: c_int) = int 3" by simp
  have pos: "\<not> sint n \<le> 0" using n N by simp
  show ?thesis
  proof (cases "even N")
    case True
    then have m: "c_mod n 2 = 0" using c_mod_eq_0_nat [OF n s2] by (simp add: dvd_eq_mod_eq_0)
    obtain n' N' k where st: "strip_factor n 2 = Some (Inr n')" "sint n' = int N'"
      "N = N' * 2 ^ k" "\<not> 2 dvd N'" "0 < N'" "0 < k"
      using strip_factor_nat [OF n s2 N] True by force
    have irr: "no_small_factor 2 (2 :: nat)" unfolding no_small_factor_def by auto
    have R0: "N = phi_spec 1 * N" by (simp only: phi_spec_1 mult_1)
    have r1: "sint (n - c_floordiv n 2) = int (N - N div 2)"
      using sint_c_floordiv_nat [OF n s2] by (intro sint_sub_nat [OF n]) simp_all
    have "\<exists>n2 r2. phi_loop n' (n - c_floordiv n 2) 3 = Some (Inr (n2, r2))
        \<and> sint (finish n2 r2) = int (phi_spec N)"
    proof (rule phi_loop_correct [OF st(2) r1 s3 _ _ st(5) _ _ _ _ Nb])
      show "odd (3 :: nat)" by simp
      show "3 \<le> (3 :: nat)" by simp
      show "no_small_factor 3 N'" by (rule nsf_3 [OF st(4)])
      show "N = (1 * 2 ^ k) * N'" using st(3) by (simp add: mult.commute)
      show "coprime (1 * 2 ^ k) N'"
        by (rule phi_step(2) [OF R0 st(3,6) _ _ irr st(4)]) simp_all
      show "N - N div 2 = phi_spec (1 * 2 ^ k) * N'"
        by (rule phi_step(1) [OF R0 st(3,6) _ _ irr st(4)]) simp_all
      show "0 < (1 :: nat) * 2 ^ k" by simp
    qed
    then obtain n2 r2 where l: "phi_loop n' (n - c_floordiv n 2) 3 = Some (Inr (n2, r2))"
      "sint (finish n2 r2) = int (phi_spec N)" by blast
    have "euler_phi n = Some (Inr (finish n2 r2))"
      using pos m st(1) l(1) by (simp add: euler_phi_def isinstance_int_def finish_def)
    then show ?thesis using l(2) by blast
  next
    case False
    then have m: "c_mod n 2 \<noteq> 0" using c_mod_eq_0_nat [OF n s2] by (simp add: dvd_eq_mod_eq_0)
    have "\<exists>n2 r2. phi_loop n n 3 = Some (Inr (n2, r2)) \<and> sint (finish n2 r2) = int (phi_spec N)"
    proof (rule phi_loop_correct [OF n n s3 _ _ N _ _ _ _ Nb])
      show "odd (3 :: nat)" by simp
      show "3 \<le> (3 :: nat)" by simp
      show "no_small_factor 3 N" by (rule nsf_3 [OF False])
      show "N = 1 * N" by simp
      show "coprime 1 N" by simp
      show "N = phi_spec 1 * N" by (simp only: phi_spec_1 mult_1)
      show "0 < (1 :: nat)" by simp
    qed
    then obtain n2 r2 where l: "phi_loop n n 3 = Some (Inr (n2, r2))"
      "sint (finish n2 r2) = int (phi_spec N)" by blast
    have "euler_phi n = Some (Inr (finish n2 r2))"
      using pos m l(1) by (simp add: euler_phi_def isinstance_int_def finish_def)
    then show ?thesis using l(2) by blast
  qed
qed

lemma is_prime_nsf: "is_prime p \<Longrightarrow> no_small_factor p p"
  by (auto simp: is_prime_def no_small_factor_def)

lemma euler_phi_sint:
  assumes "0 < sint n"
  shows "\<exists>r. euler_phi n = Some (Inr r) \<and> sint r = int (phi_spec (nat (sint n)))"
proof -
  have n: "sint n = int (nat (sint n))" using assms by simp
  show ?thesis using euler_phi_total [OF n] assms by auto
qed

lemma euler_phi_nonpos:
  "sint n \<le> 0 \<Longrightarrow> euler_phi n = Some (Inl (ValueError ''only positive number will accept''))"
  by (simp add: euler_phi_def)

section \<open>The divisor loops\<close>

lemma sint_square_small:
  assumes "sint (i :: c_int) = int K" "K \<le> 46340"
  shows "sint (i * i) = int (K * K)"
proof -
  have "K * K \<le> 46340 * 46340" using assms(2) by (intro mult_le_mono)
  then have "K * K < 2147483648" by simp
  then show ?thesis by (rule sint_mult_nat [OF assms(1) assms(1)])
qed

lemma c_int_eq_iff_nat:
  assumes "sint (x :: c_int) = int X" "sint y = int Y"
  shows "x = y \<longleftrightarrow> X = Y"
  using assms by (metis of_nat_eq_iff signed_word_eqI)

lemma tau_loop_step:
  assumes n: "sint (self_n self) = int N" and N: "0 < N" and i: "sint i = int K"
    and K: "1 \<le> K" "K \<le> 46340" and sq: "K * K \<le> N"
  shows "tau_loop self i (\<Sum>d \<in> divs_below N K. 1) =
         tau_loop self (i + 1) (\<Sum>d \<in> divs_below N (Suc K). 1)"
proof -
  have "int (K * K) \<le> int N" using sq by (simp only: of_nat_le_iff)
  then have cond: "sint (i * i) \<le> sint (self_n self)"
    using sint_square_small [OF i K(2)] n by simp
  have de: "div_error (self_n self) i = None" using i K by (intro div_error_pos) simp
  show ?thesis
  proof (cases "K dvd N")
    case False
    then have m: "c_mod (self_n self) i \<noteq> 0"
      using c_mod_eq_0_nat [OF n i] by (simp add: dvd_eq_mod_eq_0)
    show ?thesis
      using cond de m divs_below_step_ndvd [OF False] by (subst tau_loop.simps) simp
  next
    case True
    then have m: "c_mod (self_n self) i = 0"
      using c_mod_eq_0_nat [OF n i] by (simp add: dvd_eq_mod_eq_0)
    have oth: "sint (c_floordiv (self_n self) i) = int (N div K)"
      by (rule sint_c_floordiv_nat [OF n i])
    have eq: "i = c_floordiv (self_n self) i \<longleftrightarrow> K = N div K"
      by (rule c_int_eq_iff_nat [OF i oth])
    have "(\<Sum>d \<in> divs_below N (Suc K). (1 :: c_long)) =
        (\<Sum>d \<in> divs_below N K. 1) + (if K = N div K then 1 else 1 + 1)"
      by (rule sum_divs_below_step [OF N K(1) sq True])
    then show ?thesis
      using cond de m eq by (subst tau_loop.simps) (simp add: Let_def)
  qed
qed

lemma tau_loop_prefix:
  assumes n: "sint (self_n self) = int N" and N: "0 < N"
  shows "1 \<le> K \<Longrightarrow> K \<le> 46341 \<Longrightarrow> (K - 1) * (K - 1) \<le> N \<Longrightarrow>
    tau_loop self 1 0 = tau_loop self (word_of_nat K) (\<Sum>d \<in> divs_below N K. 1)"
proof (induction K)
  case 0
  then show ?case by simp
next
  case (Suc K)
  show ?case
  proof (cases "K = 0")
    case True
    then show ?thesis using divs_below_1 [of N] by simp
  next
    case False
    then have K: "1 \<le> K" "K \<le> 46340" using Suc.prems by simp_all
    have sq: "K * K \<le> N" using Suc.prems by simp
    have "(K - 1) * (K - 1) \<le> K * K" by (intro mult_le_mono) simp_all
    then have "(K - 1) * (K - 1) \<le> N" using sq by simp
    then have "tau_loop self 1 0 = tau_loop self (word_of_nat K) (\<Sum>d \<in> divs_below N K. 1)"
      using Suc.IH K by simp
    moreover have i: "sint (word_of_nat K :: c_int) = int K"
      using K by (intro sint_c_int_of_nat) simp
    ultimately show ?thesis
      using tau_loop_step [OF n N i K sq] by (simp add: add.commute)
  qed
qed

lemma sigma_loop_step:
  assumes n: "sint (self_n self) = int N" and N: "0 < N" and i: "sint i = int K"
    and K: "1 \<le> K" "K \<le> 46340" and sq: "K * K \<le> N"
    and pw: "\<And>d. d dvd N \<Longrightarrow> pw (word_of_nat d) (self_z self) = G d"
  shows "sigma_loop pw self i (sum G (divs_below N K)) =
         sigma_loop pw self (i + 1) (sum G (divs_below N (Suc K)))"
proof -
  have "int (K * K) \<le> int N" using sq by (simp only: of_nat_le_iff)
  then have cond: "sint (i * i) \<le> sint (self_n self)"
    using sint_square_small [OF i K(2)] n by simp
  have de: "div_error (self_n self) i = None" using i K by (intro div_error_pos) simp
  show ?thesis
  proof (cases "K dvd N")
    case False
    then have m: "c_mod (self_n self) i \<noteq> 0"
      using c_mod_eq_0_nat [OF n i] by (simp add: dvd_eq_mod_eq_0)
    show ?thesis
      using cond de m divs_below_step_ndvd [OF False] by (subst sigma_loop.simps) simp
  next
    case True
    then have m: "c_mod (self_n self) i = 0"
      using c_mod_eq_0_nat [OF n i] by (simp add: dvd_eq_mod_eq_0)
    have oth: "sint (c_floordiv (self_n self) i) = int (N div K)"
      by (rule sint_c_floordiv_nat [OF n i])
    have eq: "i = c_floordiv (self_n self) i \<longleftrightarrow> K = N div K"
      by (rule c_int_eq_iff_nat [OF i oth])
    have "N div K dvd N" using True by (metis dvd_div_mult_self dvd_triv_left)
    then have p2: "pw (c_floordiv (self_n self) i) (self_z self) = G (N div K)"
      using pw [of "N div K"] c_int_eq_of_nat [OF oth] by simp
    have p1: "pw i (self_z self) = G K"
      using pw [OF True] c_int_eq_of_nat [OF i] by simp
    have "sum G (divs_below N (Suc K)) =
        sum G (divs_below N K) + (if K = N div K then G K else G K + G (N div K))"
      by (rule sum_divs_below_step [OF N K(1) sq True])
    then show ?thesis
      using cond de m eq p1 p2 by (subst sigma_loop.simps) (simp add: Let_def)
  qed
qed

lemma sigma_loop_prefix:
  assumes n: "sint (self_n self) = int N" and N: "0 < N"
    and pw: "\<And>d. d dvd N \<Longrightarrow> pw (word_of_nat d) (self_z self) = G d"
  shows "1 \<le> K \<Longrightarrow> K \<le> 46341 \<Longrightarrow> (K - 1) * (K - 1) \<le> N \<Longrightarrow>
    sigma_loop pw self 1 0 = sigma_loop pw self (word_of_nat K) (sum G (divs_below N K))"
proof (induction K)
  case 0
  then show ?case by simp
next
  case (Suc K)
  show ?case
  proof (cases "K = 0")
    case True
    then show ?thesis using divs_below_1 [of N] by simp
  next
    case False
    then have K: "1 \<le> K" "K \<le> 46340" using Suc.prems by simp_all
    have sq: "K * K \<le> N" using Suc.prems by simp
    have "(K - 1) * (K - 1) \<le> K * K" by (intro mult_le_mono) simp_all
    then have "(K - 1) * (K - 1) \<le> N" using sq by simp
    then have "sigma_loop pw self 1 0 = sigma_loop pw self (word_of_nat K) (sum G (divs_below N K))"
      using Suc.IH K by simp
    moreover have i: "sint (word_of_nat K :: c_int) = int K"
      using K by (intro sint_c_int_of_nat) simp
    ultimately show ?thesis
      using sigma_loop_step [where G = G and pw = pw and self = self, OF n N i K sq pw] by (simp add: add.commute)
  qed
qed

lemma root_bound:
  assumes "(N :: nat) < 2147395600"
  shows "\<exists>K. 1 \<le> K \<and> K \<le> 46340 \<and> (K - 1) * (K - 1) \<le> N \<and> N < K * K"
proof -
  define K where "K = (LEAST k. N < k * k)"
  have ex: "N < (46340 :: nat) * 46340" using assms by simp
  then have lt: "N < K * K" unfolding K_def by (rule LeastI)
  have le: "K \<le> 46340" unfolding K_def using ex by (rule Least_le)
  have K1: "1 \<le> K" using lt by (cases K) auto
  have "\<not> N < (K - 1) * (K - 1)"
  proof
    assume "N < (K - 1) * (K - 1)"
    then have "K \<le> K - 1" unfolding K_def by (rule Least_le)
    then show False using K1 by simp
  qed
  then show ?thesis using lt le K1 by (intro exI [of _ K]) simp
qed

lemma tau_loop_total:
  assumes n: "sint (self_n self) = int N" and N: "0 < N" and small: "N < 2147395600"
  shows "tau_loop self 1 0 = Some (Inr (word_of_nat (tau_spec N)))"
proof -
  obtain K where K: "1 \<le> K" "K \<le> 46340" "(K - 1) * (K - 1) \<le> N" "N < K * K"
    using root_bound [OF small] by blast
  have i: "sint (word_of_nat K :: c_int) = int K" using K by (intro sint_c_int_of_nat) simp
  have "int N < int (K * K)" using K(4) by (simp only: of_nat_less_iff)
  then have cond: "\<not> sint (word_of_nat K * word_of_nat K :: c_int) \<le> sint (self_n self)"
    using sint_square_small [OF i K(2)] n by simp
  have "tau_loop self 1 0 = tau_loop self (word_of_nat K) (\<Sum>d \<in> divs_below N K. 1)"
    using K by (intro tau_loop_prefix [OF n N]) simp_all
  also have "\<dots> = Some (Inr (\<Sum>d \<in> divs_below N K. 1))"
    using cond by (subst tau_loop.simps) simp
  also have "(\<Sum>d \<in> divs_below N K. (1 :: c_long)) = word_of_nat (tau_spec N)"
    by (simp add: divs_below_all [OF K(4)] tau_spec_def)
  finally show ?thesis .
qed

lemma sigma_loop_total:
  assumes n: "sint (self_n self) = int N" and N: "0 < N" and small: "N < 2147395600"
    and pw: "\<And>d. d dvd N \<Longrightarrow> pw (word_of_nat d) (self_z self) = word_of_nat (d ^ Z)"
  shows "sigma_loop pw self 1 0 = Some (Inr (word_of_nat (sigma_spec N Z)))"
proof -
  obtain K where K: "1 \<le> K" "K \<le> 46340" "(K - 1) * (K - 1) \<le> N" "N < K * K"
    using root_bound [OF small] by blast
  have i: "sint (word_of_nat K :: c_int) = int K" using K by (intro sint_c_int_of_nat) simp
  have "int N < int (K * K)" using K(4) by (simp only: of_nat_less_iff)
  then have cond: "\<not> sint (word_of_nat K * word_of_nat K :: c_int) \<le> sint (self_n self)"
    using sint_square_small [OF i K(2)] n by simp
  have "sigma_loop pw self 1 0 =
      sigma_loop pw self (word_of_nat K) (\<Sum>d \<in> divs_below N K. word_of_nat (d ^ Z))"
    using K by (intro sigma_loop_prefix [where G = "\<lambda>d. word_of_nat (d ^ Z)" and pw = pw and self = self, OF n N pw]) simp_all
  also have "\<dots> = Some (Inr (\<Sum>d \<in> divs_below N K. word_of_nat (d ^ Z)))"
    using cond by (subst sigma_loop.simps) simp
  also have "(\<Sum>d \<in> divs_below N K. (word_of_nat (d ^ Z) :: c_long)) = word_of_nat (sigma_spec N Z)"
    by (simp add: divs_below_all [OF K(4)] sigma_spec_def)
  finally show ?thesis .
qed

lemma tau_loop_zero: "tau_loop self 0 t = Some (Inr r) \<Longrightarrow> r = t"
  by (subst (asm) tau_loop.simps) (simp add: div_error_def split: if_splits)

lemma tau_loop_unfold_cases:
  assumes "tau_loop self i t = Some (Inr r)"
  shows "r = t \<or> (\<exists>t'. (t' = t \<or> t' = t + 1 \<or> t' = t + 2) \<and> tau_loop self (i + 1) t' = Some (Inr r))"
  using assms
  by (subst (asm) tau_loop.simps) (auto simp: Let_def split: if_splits option.splits)

lemma unat_c_long_add_small:
  assumes "unat (t :: c_long) + 2 < 18446744073709551616" "t' = t \<or> t' = t + 1 \<or> t' = t + 2"
  shows "unat t \<le> unat t' \<and> unat t' \<le> unat t + 2"
proof -
  have "unat (t + 1) = unat t + 1" using assms(1) by (simp add: unat_word_ariths)
  moreover have "unat (t + 2) = unat t + 2" using assms(1) by (simp add: unat_word_ariths)
  ultimately show ?thesis using assms(2) by auto
qed

lemma tau_loop_mono:
  assumes "tau_loop self i t = Some (Inr r)" "i \<noteq> 0"
    "unat t + 2 * (4294967296 - unat i) < 18446744073709551616"
  shows "unat t \<le> unat r"
  using assms
proof (induction "4294967296 - unat i" arbitrary: i t rule: less_induct)
  case less
  have ui: "unat i < 4294967296" using unsigned_less [of i] by simp
  have ui0: "0 < unat i" using less.prems(2) by (simp add: unat_gt_0)
  from tau_loop_unfold_cases [OF less.prems(1)]
  show ?case
  proof
    assume "r = t"
    then show ?thesis by simp
  next
    assume "\<exists>t'. (t' = t \<or> t' = t + 1 \<or> t' = t + 2) \<and> tau_loop self (i + 1) t' = Some (Inr r)"
    then obtain t' where t': "t' = t \<or> t' = t + 1 \<or> t' = t + 2"
      and l: "tau_loop self (i + 1) t' = Some (Inr r)" by blast
    have b: "unat t \<le> unat t' \<and> unat t' \<le> unat t + 2"
      by (rule unat_c_long_add_small [OF _ t']) (use less.prems(3) ui in simp)
    show ?thesis
    proof (cases "i + 1 = 0")
      case True
      then have "r = t'" using l tau_loop_zero by simp
      then show ?thesis using b by simp
    next
      case False
      have "unat i \<noteq> 4294967295"
      proof
        assume "unat i = 4294967295"
        then have "i = word_of_nat 4294967295" by (metis of_nat_unat ucast_id)
        then have "i + 1 = 0" by simp
        then show False using False by simp
      qed
      then have lt: "unat i < 4294967295" using ui by simp
      then have u1: "unat (i + 1) = unat i + 1" by (simp add: unat_word_ariths)
      have "unat t' \<le> unat r"
      proof (rule less.hyps [OF _ l False])
        show "4294967296 - unat (i + 1) < 4294967296 - unat i" using u1 lt by simp
        show "unat t' + 2 * (4294967296 - unat (i + 1)) < 18446744073709551616"
          using u1 lt b less.prems(3) by linarith
      qed
      then show ?thesis using b by simp
    qed
  qed
qed

lemma tau_spec_le: "tau_spec N \<le> N"
proof -
  have "card {d \<in> {1..N}. d dvd N} \<le> card {1..N}" by (intro card_mono) auto
  then show ?thesis by (simp add: tau_spec_def)
qed

lemma tau_loop_overcount:
  fixes self :: SigmaZ
  defines "self \<equiv> \<lparr>self_n = 2147441940, self_z = 0\<rparr>"
  shows "tau_loop self 1 0 \<noteq> Some (Inr (word_of_nat (tau_spec 2147441940)))"
proof
  let ?N = "2147441940 :: nat"
  let ?t = "word_of_nat (tau_spec ?N) :: c_long"
  assume a: "tau_loop self 1 0 = Some (Inr ?t)"
  have n: "sint (self_n self) = int ?N" by (simp add: self_def)
  have "tau_loop self 1 0 = tau_loop self (word_of_nat 46341) (\<Sum>d \<in> divs_below ?N 46341. 1)"
    by (rule tau_loop_prefix [OF n]) simp_all
  also have "(\<Sum>d \<in> divs_below ?N 46341. (1 :: c_long)) = ?t"
    by (subst divs_below_all) (simp_all add: tau_spec_def)
  also have "tau_loop self (word_of_nat 46341) ?t = tau_loop self 46342 (?t + 2)"
    by (subst tau_loop.simps) (simp add: self_def div_error_def c_mod_def c_floordiv_def)
  finally have l: "tau_loop self 46342 (?t + 2) = Some (Inr ?t)" using a by simp
  have "tau_spec ?N < 2147483648" using tau_spec_le [of ?N] by simp
  then have ut: "unat ?t = tau_spec ?N" by (simp add: unat_of_nat)
  then have ut2: "unat (?t + 2) = tau_spec ?N + 2"
    using \<open>tau_spec ?N < 2147483648\<close> by (simp add: unat_word_ariths)
  have "unat (?t + 2) \<le> unat ?t"
    by (rule tau_loop_mono [OF l]) (use ut2 \<open>tau_spec ?N < 2147483648\<close> in simp_all)
  then show False using ut ut2 by simp
qed

section \<open>Properties of euler_phi\<close>

lemma coprime_power_2_odd: "odd (b :: int) \<Longrightarrow> coprime (2 ^ k) b"
  by (cases k) simp_all

lemma euler_phi_py_value:
  assumes "0 < x" "x < 2147483648"
  shows "euler_phi_py x = Some (Inr (int (phi_spec (nat x))))"
proof -
  have c: "to_c_int x = Inr (word_of_int x)" using assms by (simp add: to_c_int_def)
  have s: "sint (word_of_int x :: c_int) = x"
    using assms by (intro sint_c_int_of_int) simp_all
  then have "0 < sint (word_of_int x :: c_int)" using assms by simp
  from euler_phi_sint [OF this] obtain r where
    r: "euler_phi (word_of_int x) = Some (Inr r)" "sint r = int (phi_spec (nat x))"
    using s by auto
  show ?thesis using c r by (simp add: euler_phi_py_def)
qed

lemma phi_spec_bounds:
  assumes "0 < sint (n :: c_int)"
  shows "0 < phi_spec (nat (sint n))" and "1 < sint n \<Longrightarrow> int (phi_spec (nat (sint n))) < sint n"
proof -
  show "0 < phi_spec (nat (sint n))" using assms by (intro phi_spec_pos) simp
  assume "1 < sint n"
  then have "phi_spec (nat (sint n)) < nat (sint n)" by (intro phi_spec_less) simp
  then show "int (phi_spec (nat (sint n))) < sint n" by simp
qed

lemma euler_phi_at_1: "euler_phi 1 = Some (Inr 1)"
  by (simp add: euler_phi_def isinstance_int_def c_mod_def c_floordiv_def div_error_def
      phi_loop.simps strip_factor.simps)

text \<open>
  C2. For every \<open>n > 0\<close> of the parameter's type, \<^verbatim>\<open>euler_phi(n)\<close> returns the number of
  \<open>k\<close> in \<open>[1, n]\<close> with \<open>gcd(k, n) = 1\<close>; in particular it returns 1 at 1, 4 at 10, 40 at
  100, and \<open>p - 1\<close> at every prime \<open>p\<close>.
\<close>

theorem euler_phi_counts_coprimes:
  "(0 < sint n \<longrightarrow>
      (\<exists>r. euler_phi n = Some (Inr r) \<and> sint r = int (phi_spec (nat (sint n)))))
   \<and> euler_phi 1 = Some (Inr 1)
   \<and> euler_phi 10 = Some (Inr 4)
   \<and> euler_phi 100 = Some (Inr 40)
   \<and> (is_prime (nat (sint p)) \<longrightarrow> euler_phi p = Some (Inr (p - 1)))"
proof (intro conjI impI)
  assume "0 < sint n"
  then show "\<exists>r. euler_phi n = Some (Inr r) \<and> sint r = int (phi_spec (nat (sint n)))"
    by (rule euler_phi_sint)
next
  show "euler_phi 1 = Some (Inr 1)" by (rule euler_phi_at_1)
next
  show "euler_phi 10 = Some (Inr 4)"
    by (simp add: euler_phi_def isinstance_int_def c_mod_def c_floordiv_def div_error_def
        phi_loop.simps strip_factor.simps)
next
  show "euler_phi 100 = Some (Inr 40)"
    by (simp add: euler_phi_def isinstance_int_def c_mod_def c_floordiv_def div_error_def
        phi_loop.simps strip_factor.simps)
next
  assume pr: "is_prime (nat (sint p))"
  let ?P = "nat (sint p)"
  have P1: "1 < ?P" using pr by (simp add: is_prime_def)
  then have pos: "0 < sint p" by simp
  have sp: "sint p = int ?P" using pos by simp
  have "phi_spec ?P = ?P - 1" by (rule irreducible_phi_spec [OF P1 is_prime_nsf [OF pr]])
  moreover have "sint (p - 1) = int (?P - 1)"
    by (rule sint_sub_nat [OF sp]) (use P1 in simp_all)
  ultimately have "sint (p - 1) = int (phi_spec ?P)" by simp
  moreover obtain r where "euler_phi p = Some (Inr r)" "sint r = int (phi_spec ?P)"
    using euler_phi_sint [OF pos] by blast
  ultimately show "euler_phi p = Some (Inr (p - 1))" using sint_eqI [of r "p - 1"] by simp
qed

theorem euler_phi_counts_coprimes_witness:
  "0 < sint (36 :: c_int) \<and> euler_phi 36 = Some (Inr 12)
   \<and> is_prime 97 \<and> euler_phi 97 = Some (Inr 96)"
proof -
  have s36: "nat (sint (36 :: c_int)) = 36" and s97: "nat (sint (97 :: c_int)) = 97" by simp_all
  have p97: "is_prime 97" by code_simp
  have v36: "phi_spec 36 = 12" by code_simp
  have pos: "0 < sint (36 :: c_int)" by simp
  from euler_phi_counts_coprimes [of 36 97]
  have a: "\<exists>r. euler_phi 36 = Some (Inr r) \<and> sint r = int (phi_spec 36)"
    and b: "euler_phi 97 = Some (Inr (97 - 1))"
    using pos p97 s36 s97 by simp_all
  from a obtain r where r: "euler_phi 36 = Some (Inr r)" "sint r = sint (12 :: c_int)"
    using v36 by auto
  then have "euler_phi 36 = Some (Inr 12)" using sint_eqI [of r 12] by simp
  then show ?thesis using b p97 by simp
qed

text \<open>
  C5. For every \<open>n \<le> 0\<close>, \<^verbatim>\<open>euler_phi(n)\<close> fails with the validation error, an outcome of its
  own kind and not a returned number; for every \<open>n > 0\<close> it returns a number and does not
  fail. The number returned is positive, so it is never the value \<open>-1\<close> that the C signature
  \<^verbatim>\<open>except -1\<close> reserves for a raised exception.
\<close>

theorem euler_phi_validation:
  "(sint n \<le> 0 \<longrightarrow>
      euler_phi n = Some (Inl (ValueError ''only positive number will accept'')))
   \<and> (0 < sint n \<longrightarrow> (\<exists>r. euler_phi n = Some (Inr r) \<and> 0 < sint r))"
proof (intro conjI impI)
  assume "sint n \<le> 0"
  then show "euler_phi n = Some (Inl (ValueError ''only positive number will accept''))"
    by (rule euler_phi_nonpos)
next
  assume pos: "0 < sint n"
  then obtain r where "euler_phi n = Some (Inr r)" "sint r = int (phi_spec (nat (sint n)))"
    using euler_phi_sint by blast
  then show "\<exists>r. euler_phi n = Some (Inr r) \<and> 0 < sint r"
    using phi_spec_bounds(1) [OF pos] by auto
qed

theorem euler_phi_validation_witness:
  "sint (- 5 :: c_int) \<le> 0
   \<and> euler_phi (- 5) = Some (Inl (ValueError ''only positive number will accept''))
   \<and> 0 < sint (10 :: c_int)
   \<and> (\<exists>r. euler_phi 10 = Some (Inr r) \<and> 0 < sint r)"
  using euler_phi_validation [of "- 5"] euler_phi_validation [of 10] by simp

text \<open>
  C9. For every \<open>n > 1\<close> that \<^verbatim>\<open>euler_phi\<close> accepts, the value returned is at least 1 and
  at most \<open>n - 1\<close>; the function returns its own argument only at \<open>n = 1\<close>.
\<close>

theorem euler_phi_below_argument:
  "(1 < sint n \<longrightarrow>
      (\<exists>r. euler_phi n = Some (Inr r) \<and> 1 \<le> sint r \<and> sint r \<le> sint n - 1))
   \<and> (euler_phi n = Some (Inr n) \<longleftrightarrow> n = 1)"
proof -
  have gt: "\<exists>r. euler_phi n = Some (Inr r) \<and> 1 \<le> sint r \<and> sint r \<le> sint n - 1"
    if "1 < sint n"
  proof -
    have pos: "0 < sint n" using that by simp
    obtain r where r: "euler_phi n = Some (Inr r)" "sint r = int (phi_spec (nat (sint n)))"
      using euler_phi_sint [OF pos] by blast
    then show ?thesis using phi_spec_bounds [OF pos] that by auto
  qed
  have "n = 1" if e: "euler_phi n = Some (Inr n)"
  proof (rule ccontr)
    assume ne: "n \<noteq> 1"
    have "\<not> sint n \<le> 0" using e euler_phi_nonpos [of n] by auto
    moreover have "sint n \<noteq> 1" using ne sint_eqI [of n 1] by auto
    ultimately have "1 < sint n" by simp
    from gt [OF this] e show False by auto
  qed
  then show ?thesis using gt euler_phi_at_1 by auto
qed

theorem euler_phi_below_argument_witness:
  "1 < sint (10 :: c_int)
   \<and> (\<exists>r. euler_phi 10 = Some (Inr r) \<and> 1 \<le> sint r \<and> sint r \<le> sint (10 :: c_int) - 1)"
  using euler_phi_below_argument [of 10] by simp

text \<open>
  C10. Whatever the integer argument, the only error \<^verbatim>\<open>euler_phi\<close> raises is the
  \<^verbatim>\<open>ValueError\<close> for \<open>n \<le> 0\<close>. It never raises \<^verbatim>\<open>TypeError\<close>: the \<^verbatim>\<open>isinstance\<close> test holds
  for every value of the typed parameter. The call always returns.
\<close>

theorem euler_phi_only_value_error:
  "euler_phi n \<noteq> Some (Inl (TypeError msg))
   \<and> isinstance_int n
   \<and> euler_phi n \<noteq> None
   \<and> (euler_phi n = Some (Inl e) \<longrightarrow>
        sint n \<le> 0 \<and> e = ValueError ''only positive number will accept'')"
proof (cases "sint n \<le> 0")
  case True
  then show ?thesis using euler_phi_nonpos [of n] by (simp add: isinstance_int_def)
next
  case False
  then have "0 < sint n" by simp
  from euler_phi_sint [OF this] show ?thesis by (auto simp: isinstance_int_def)
qed

theorem euler_phi_only_value_error_witness:
  "euler_phi 0 = Some (Inl (ValueError ''only positive number will accept''))
   \<and> sint (0 :: c_int) \<le> 0"
  using euler_phi_only_value_error [of 0 "[]" "ValueError ''only positive number will accept''"]
  by (simp add: euler_phi_def)

text \<open>
  C6, as stated: \<^verbatim>\<open>euler_phi(a*b) == euler_phi(a) * euler_phi(b)\<close> for every pair of coprime
  positive integers. It fails for 65536 and 32769: both are accepted, but their product
  does not fit the C parameter, and the call raises \<^verbatim>\<open>OverflowError\<close>.
\<close>

theorem euler_phi_product_counterexample:
  "0 < (65536 :: int) \<and> 0 < (32769 :: int) \<and> coprime (65536 :: int) 32769
   \<and> euler_phi_py 65536 = Some (Inr 32768)
   \<and> euler_phi_py 32769 = Some (Inr 19800)
   \<and> euler_phi_py (65536 * 32769) = Some (Inl OverflowError)"
proof -
  have e: "(2 :: int) ^ 16 = 65536" by simp
  have "coprime ((2 :: int) ^ 16) 32769" by (rule coprime_power_2_odd) simp
  then have c: "coprime (65536 :: int) 32769" unfolding e .
  have a: "euler_phi 65536 = Some (Inr 32768)"
    by (simp add: euler_phi_def isinstance_int_def c_mod_def c_floordiv_def div_error_def
        phi_loop.simps strip_factor.simps)
  have b: "euler_phi 32769 = Some (Inr 19800)"
    by (simp add: euler_phi_def isinstance_int_def c_mod_def c_floordiv_def div_error_def
        phi_loop.simps strip_factor.simps)
  show ?thesis using a b c by (simp add: euler_phi_py_def to_c_int_def)
qed

text \<open>
  C6, amended: for coprime positive integers \<open>a\<close> and \<open>b\<close> whose product is at most
  \<open>2^31 - 1\<close>, the three calls return and \<^verbatim>\<open>euler_phi(a*b) == euler_phi(a) * euler_phi(b)\<close>.
\<close>

theorem euler_phi_py_multiplicative:
  assumes "0 < a" "0 < b" "coprime a b" "a * b < 2 ^ 31"
  shows "\<exists>x y. euler_phi_py a = Some (Inr x) \<and> euler_phi_py b = Some (Inr y)
           \<and> euler_phi_py (a * b) = Some (Inr (x * y))"
proof -
  have ab: "0 < a * b" using assms by simp
  have "a * 1 \<le> a * b" using assms by (intro mult_left_mono) simp_all
  then have al: "a < 2147483648" using assms(4) by simp
  have "1 * b \<le> a * b" using assms by (intro mult_right_mono) simp_all
  then have bl: "b < 2147483648" using assms(4) by simp
  have "coprime (int (nat a)) (int (nat b))" using assms by simp
  then have cop: "coprime (nat a) (nat b)" by (simp only: coprime_int_iff)
  have "phi_spec (nat a * nat b) = phi_spec (nat a) * phi_spec (nat b)"
    using assms by (intro phi_spec_mult [OF cop]) simp_all
  moreover have "nat (a * b) = nat a * nat b" using assms by (simp add: nat_mult_distrib)
  ultimately have "int (phi_spec (nat (a * b))) = int (phi_spec (nat a)) * int (phi_spec (nat b))"
    by simp
  moreover have "euler_phi_py (a * b) = Some (Inr (int (phi_spec (nat (a * b)))))"
    using ab assms(4) by (intro euler_phi_py_value) simp_all
  ultimately show ?thesis
    using euler_phi_py_value [OF assms(1) al] euler_phi_py_value [OF assms(2) bl] by simp
qed

theorem euler_phi_py_multiplicative_witness:
  "0 < (4 :: int) \<and> 0 < (9 :: int) \<and> coprime (4 :: int) 9 \<and> (4 :: int) * 9 < 2 ^ 31
   \<and> (\<exists>x y. euler_phi_py 4 = Some (Inr x) \<and> euler_phi_py 9 = Some (Inr y)
          \<and> euler_phi_py (4 * 9) = Some (Inr (x * y)))"
proof -
  have e: "(2 :: int) ^ 2 = 4" by simp
  have "coprime ((2 :: int) ^ 2) 9" by (rule coprime_power_2_odd) simp
  then have c: "coprime (4 :: int) 9" unfolding e .
  show ?thesis using euler_phi_py_multiplicative [OF _ _ c] c by simp
qed

section \<open>Properties of SigmaZ\<close>

lemma sint_c_long_of_int:
  "- 9223372036854775808 \<le> v \<Longrightarrow> v < 9223372036854775808 \<Longrightarrow> sint (word_of_int v :: c_long) = v"
  by (simp add: sint_sbintrunc' signed_take_bit_int_eq_self)

lemma sint_c_long_of_nat:
  "X < 9223372036854775808 \<Longrightarrow> sint (word_of_nat X :: c_long) = int X"
  using sint_c_long_of_int [of "int X"] by simp

lemma sigma_spec_2: "sigma_spec 2 z = 1 + 2 ^ z"
proof -
  have "{d \<in> {1..2}. d dvd (2 :: nat)} = {1, 2}" by auto
  then show ?thesis by (simp add: sigma_spec_def)
qed

lemma sigma_spec_0: "sigma_spec N 0 = tau_spec N"
  by (simp add: sigma_spec_def tau_spec_def)

lemma exact_pow_of_nat:
  assumes "d < 2147483648" "0 \<le> sint z"
  shows "exact_pow (word_of_nat d) z = word_of_nat (d ^ nat (sint z))"
proof -
  have "sint (word_of_nat d :: c_int) = int d" by (rule sint_c_int_of_nat [OF assms(1)])
  then show ?thesis by (simp add: exact_pow_def)
qed

lemma cinit_valid:
  assumes "SigmaZ_cinit n z = Inr self"
  shows "0 < sint n" and "0 \<le> sint z" and "self = \<lparr>self_n = n, self_z = z\<rparr>"
  using assms by (auto simp: SigmaZ_cinit_def split: if_splits)

lemma SigmaZ_compute_exact:
  assumes n: "0 < sint n" and small: "sint n < 2147395600"
    and pw: "z \<noteq> 0 \<longrightarrow>
      (\<forall>d. d dvd nat (sint n) \<longrightarrow> pw (word_of_nat d) z = word_of_nat (d ^ nat (sint z)))"
  shows "SigmaZ_compute pw \<lparr>self_n = n, self_z = z\<rparr> =
     Some (\<lparr>self_n = n, self_z = z\<rparr>, Inr (word_of_nat (sigma_spec (nat (sint n)) (nat (sint z)))))"
proof -
  let ?self = "\<lparr>self_n = n, self_z = z\<rparr>"
  let ?N = "nat (sint n)"
  have sn: "sint (self_n ?self) = int ?N" using n by simp
  have N: "0 < ?N" using n by simp
  have Ns: "?N < 2147395600" using small by simp
  show ?thesis
  proof (cases "z = 0")
    case True
    then show ?thesis
      using tau_loop_total [OF sn N Ns] by (simp add: SigmaZ_compute_def sigma_spec_0)
  next
    case False
    have "sigma_loop pw ?self 1 0 = Some (Inr (word_of_nat (sigma_spec ?N (nat (sint z)))))"
      by (rule sigma_loop_total [OF sn N Ns]) (use pw False in simp)
    then show ?thesis using False by (simp add: SigmaZ_compute_def)
  qed
qed

text \<open>
  C1, as stated: for every \<open>n > 0\<close> and \<open>z \<ge> 0\<close>, \<^verbatim>\<open>SigmaZ(n, z).compute()\<close> returns the exact
  sum of \<open>d^z\<close> over the divisors of \<open>n\<close>. At \<open>n = 2\<close>, \<open>z = 64\<close> the sum is \<open>1 + 2^64\<close>, and
  no value of the 64-bit return type is that number, whatever \<^verbatim>\<open>pow\<close> returns.
\<close>

theorem SigmaZ_compute_exact_sum_counterexample:
  "SigmaZ_cinit 2 64 = Inr \<lparr>self_n = 2, self_z = 64\<rparr>
   \<and> \<not> (\<exists>pw r. SigmaZ_compute pw \<lparr>self_n = 2, self_z = 64\<rparr>
                = Some (\<lparr>self_n = 2, self_z = 64\<rparr>, Inr r)
              \<and> sint r = int (sigma_spec 2 64))"
proof -
  have v: "sigma_spec 2 64 = 18446744073709551617" by (simp add: sigma_spec_2)
  have "sint r \<noteq> int (sigma_spec 2 64)" for r :: c_long
  proof
    assume "sint r = int (sigma_spec 2 64)"
    then have "sint r = 18446744073709551617" using v by simp
    moreover have "sint r < 9223372036854775808" using sint_lt [of r] by simp
    ultimately show False by simp
  qed
  moreover have "SigmaZ_cinit 2 64 = Inr \<lparr>self_n = 2, self_z = 64\<rparr>"
    by (simp add: SigmaZ_cinit_def)
  ultimately show ?thesis by blast
qed

text \<open>
  C1, amended: for every \<open>n\<close> with \<open>0 < n < 2147395600 = 46340^2\<close> and every \<open>z \<ge> 0\<close> such
  that (when \<open>z > 0\<close>) \<^verbatim>\<open><long>(pow(d, z))\<close> is the exact power \<open>d^z\<close> for each divisor \<open>d\<close> of
  \<open>n\<close>, and the sum of these powers is below \<open>2^63\<close>, \<^verbatim>\<open>SigmaZ(n, z).compute()\<close> returns
  that sum, as a 64-bit long.
\<close>

theorem SigmaZ_compute_exact_sum:
  assumes "SigmaZ_cinit n z = Inr self"
    and "sint n < 2147395600"
    and "z \<noteq> 0 \<longrightarrow>
      (\<forall>d. d dvd nat (sint n) \<longrightarrow> pw (word_of_nat d) z = word_of_nat (d ^ nat (sint z)))"
    and "sigma_spec (nat (sint n)) (nat (sint z)) < 2 ^ 63"
  shows "\<exists>r. SigmaZ_compute pw self = Some (self, Inr r)
           \<and> sint r = int (sigma_spec (nat (sint n)) (nat (sint z)))"
proof -
  note v = cinit_valid [OF assms(1)]
  have "sint (word_of_nat (sigma_spec (nat (sint n)) (nat (sint z))) :: c_long)
      = int (sigma_spec (nat (sint n)) (nat (sint z)))"
    by (rule sint_c_long_of_nat) (use assms(4) in simp)
  then show ?thesis
    using SigmaZ_compute_exact [where pw = pw, OF v(1) assms(2,3)] v(3) by simp
qed

theorem SigmaZ_compute_exact_sum_witness:
  "SigmaZ_cinit 6 2 = Inr \<lparr>self_n = 6, self_z = 2\<rparr>
   \<and> sint (6 :: c_int) < 2147395600
   \<and> exact_pow 1 2 = 1 \<and> exact_pow 2 2 = 4 \<and> exact_pow 3 2 = 9 \<and> exact_pow 6 2 = 36
   \<and> sigma_spec (nat (sint (6 :: c_int))) (nat (sint (2 :: c_int))) < 2 ^ 63
   \<and> (\<exists>r. SigmaZ_compute exact_pow \<lparr>self_n = 6, self_z = 2\<rparr>
            = Some (\<lparr>self_n = 6, self_z = 2\<rparr>, Inr r) \<and> sint r = 50)"
proof -
  have c: "SigmaZ_cinit 6 2 = Inr \<lparr>self_n = 6, self_z = 2\<rparr>" by (simp add: SigmaZ_cinit_def)
  have s: "sint (6 :: c_int) < 2147395600" by simp
  have p: "(2 :: c_int) \<noteq> 0 \<longrightarrow> (\<forall>d. d dvd nat (sint (6 :: c_int)) \<longrightarrow>
      exact_pow (word_of_nat d) 2 = word_of_nat (d ^ nat (sint (2 :: c_int))))"
  proof (intro allI impI)
    fix d :: nat
    assume "d dvd nat (sint (6 :: c_int))"
    then have "d \<le> 6" by (simp add: dvd_imp_le)
    then show "exact_pow (word_of_nat d) 2 = word_of_nat (d ^ nat (sint (2 :: c_int)))"
      by (intro exact_pow_of_nat) simp_all
  qed
  have e: "sigma_spec 6 2 = 50" by code_simp
  have b: "sigma_spec (nat (sint (6 :: c_int))) (nat (sint (2 :: c_int))) < 2 ^ 63"
    using e by simp
  have x: "exact_pow 1 2 = 1 \<and> exact_pow 2 2 = 4 \<and> exact_pow 3 2 = 9 \<and> exact_pow 6 2 = 36"
    by (simp add: exact_pow_def)
  from SigmaZ_compute_exact_sum [where pw = exact_pow, OF c s p b]
  show ?thesis using c s x b e by simp
qed

text \<open>
  C3, at the input \<open>n = 2147441940 = 46340 * 46341\<close>, \<open>z = 0\<close>, which the constructor
  accepts: \<^verbatim>\<open>compute()\<close> does not return the number of divisors of \<open>n\<close>. The 32-bit product
  \<^verbatim>\<open>i * i\<close> wraps to a negative number at \<open>i = 46341\<close>, the loop goes on past the square
  root, and the pair \<open>(46341, 46340)\<close> is counted a second time.
\<close>

theorem SigmaZ_compute_tau_overflow:
  "SigmaZ_cinit 2147441940 0 = Inr \<lparr>self_n = 2147441940, self_z = 0\<rparr>
   \<and> SigmaZ_compute pw \<lparr>self_n = 2147441940, self_z = 0\<rparr>
       \<noteq> Some (\<lparr>self_n = 2147441940, self_z = 0\<rparr>, Inr (word_of_nat (tau_spec 2147441940)))"
proof -
  let ?self = "\<lparr>self_n = 2147441940, self_z = 0\<rparr> :: SigmaZ"
  have c: "SigmaZ_cinit 2147441940 0 = Inr ?self" by (simp add: SigmaZ_cinit_def)
  have e: "SigmaZ_compute pw ?self = map_option (Pair ?self) (tau_loop ?self 1 0)"
    by (simp add: SigmaZ_compute_def)
  have "SigmaZ_compute pw ?self \<noteq> Some (?self, Inr (word_of_nat (tau_spec 2147441940)))"
  proof
    assume "SigmaZ_compute pw ?self = Some (?self, Inr (word_of_nat (tau_spec 2147441940)))"
    then have "map_option (Pair ?self) (tau_loop ?self 1 0)
        = Some (?self, Inr (word_of_nat (tau_spec 2147441940)))" unfolding e .
    then have "tau_loop ?self 1 0 = Some (Inr (word_of_nat (tau_spec 2147441940)))"
      by (cases "tau_loop ?self 1 0") (simp_all only: option.map option.simps prod.inject)
    then show False using tau_loop_overcount by blast
  qed
  then show ?thesis using c by blast
qed

text \<open>
  C4, as stated: the error for \<open>n \<le> 0\<close> carries the message "input must be a positive
  integer". The constructor's message is another one.
\<close>

theorem SigmaZ_cinit_message_counterexample:
  "SigmaZ_cinit 0 1 = Inl (ValueError ''only acc positive integer'')
   \<and> SigmaZ_cinit 0 1 \<noteq> Inl (ValueError ''input must be a positive integer'')"
  by (simp add: SigmaZ_cinit_def)

text \<open>
  C4, amended: constructing \<^verbatim>\<open>SigmaZ\<close> fails with a \<^verbatim>\<open>ValueError\<close> exactly when \<open>n \<le> 0\<close>
  (message "only acc positive integer") or \<open>n > 0\<close> and \<open>z < 0\<close> (message "exponent must be
  non-negative"); for \<open>n > 0\<close> and \<open>z \<ge> 0\<close> it succeeds and stores \<open>n\<close> and \<open>z\<close>.
\<close>

theorem SigmaZ_cinit_validation:
  "(sint n \<le> 0 \<longrightarrow> SigmaZ_cinit n z = Inl (ValueError ''only acc positive integer''))
   \<and> (0 < sint n \<and> sint z < 0 \<longrightarrow>
        SigmaZ_cinit n z = Inl (ValueError ''exponent must be non-negative''))
   \<and> (0 < sint n \<and> 0 \<le> sint z \<longrightarrow> SigmaZ_cinit n z = Inr \<lparr>self_n = n, self_z = z\<rparr>)"
  by (simp add: SigmaZ_cinit_def)

theorem SigmaZ_cinit_validation_witness:
  "sint (- 5 :: c_int) \<le> 0
   \<and> SigmaZ_cinit (- 5) 2 = Inl (ValueError ''only acc positive integer'')
   \<and> 0 < sint (6 :: c_int) \<and> sint (- 1 :: c_int) < 0
   \<and> SigmaZ_cinit 6 (- 1) = Inl (ValueError ''exponent must be non-negative'')
   \<and> 0 \<le> sint (2 :: c_int)
   \<and> SigmaZ_cinit 6 2 = Inr \<lparr>self_n = 6, self_z = 2\<rparr>"
  using SigmaZ_cinit_validation [of "- 5" 2] SigmaZ_cinit_validation [of 6 "- 1"]
    SigmaZ_cinit_validation [of 6 2]
  by simp

text \<open>
  C7. For every \<open>z \<ge> 0\<close>, \<^verbatim>\<open>SigmaZ(1, z).compute()\<close> returns 1. For \<open>z > 0\<close> the value added is
  \<^verbatim>\<open><long>(pow(1, z))\<close>; that \<^verbatim>\<open>pow(1, z)\<close> is 1 is what the theorem asks of the C library
  (the C standard fixes \<^verbatim>\<open>pow(1, y)\<close> at 1 for every \<open>y\<close>). For \<open>z = 0\<close> it asks nothing.
\<close>

theorem SigmaZ_compute_at_one:
  assumes "0 \<le> sint z" and "z \<noteq> 0 \<longrightarrow> pw 1 z = 1"
  shows "SigmaZ_cinit 1 z = Inr \<lparr>self_n = 1, self_z = z\<rparr>
     \<and> SigmaZ_compute pw \<lparr>self_n = 1, self_z = z\<rparr> = Some (\<lparr>self_n = 1, self_z = z\<rparr>, Inr 1)"
proof -
  let ?self = "\<lparr>self_n = 1, self_z = z\<rparr>"
  have t: "tau_loop ?self 1 0 = Some (Inr 1)"
    by (simp add: tau_loop.simps div_error_def c_mod_def c_floordiv_def)
  have s: "sigma_loop pw ?self 1 0 = Some (Inr 1)" if "z \<noteq> 0"
    using assms(2) that by (simp add: sigma_loop.simps div_error_def c_mod_def c_floordiv_def)
  have "SigmaZ_compute pw ?self = Some (?self, Inr 1)"
    unfolding SigmaZ_compute_def using t s by (cases "z = 0") simp_all
  then show ?thesis using assms(1) by (simp add: SigmaZ_cinit_def)
qed

theorem SigmaZ_compute_at_one_witness:
  "0 \<le> sint (5 :: c_int) \<and> exact_pow 1 5 = 1
   \<and> SigmaZ_compute exact_pow \<lparr>self_n = 1, self_z = 5\<rparr> = Some (\<lparr>self_n = 1, self_z = 5\<rparr>, Inr 1)"
proof -
  have a: "0 \<le> sint (5 :: c_int)" by simp
  have b: "exact_pow 1 5 = 1" by (simp add: exact_pow_def)
  then have b': "(5 :: c_int) \<noteq> 0 \<longrightarrow> exact_pow 1 5 = 1" by simp
  from SigmaZ_compute_at_one [where pw = exact_pow, OF a b'] show ?thesis using a b by simp
qed

lemma unat_neg_succ:
  assumes "(i :: c_int) \<noteq> 0"
  shows "unat (- (i + 1)) < unat (- i)"
proof -
  have "- i \<noteq> 0" using assms by simp
  then have "unat (- i - 1) < unat (- i)" by (rule measure_unat)
  moreover have "- (i + 1) = - i - 1" by simp
  ultimately show ?thesis by simp
qed

lemma tau_body_frame: "tau_body s = Inr s' \<Longrightarrow> st_self s' = st_self s \<and> st_i s' = st_i s + 1"
  by (auto simp: tau_body_def Let_def split: option.splits if_splits)

lemma sigma_body_frame:
  "sigma_body pw s = Inr s' \<Longrightarrow> st_self s' = st_self s \<and> st_i s' = st_i s + 1"
  by (auto simp: sigma_body_def Let_def split: option.splits if_splits)

lemma tau_body_nonzero: "tau_body s = Inr s' \<Longrightarrow> st_i s \<noteq> 0"
  by (auto simp: tau_body_def div_error_def split: option.splits if_splits)

lemma sigma_body_nonzero: "sigma_body pw s = Inr s' \<Longrightarrow> st_i s \<noteq> 0"
  by (auto simp: sigma_body_def div_error_def split: option.splits if_splits)

lemma tau_body_loop:
  assumes "sint (st_i s * st_i s) \<le> sint (self_n (st_self s))"
  shows "tau_body s = Inl e \<Longrightarrow> tau_loop (st_self s) (st_i s) (st_total s) = Some (Inl e)"
    and "tau_body s = Inr s' \<Longrightarrow>
      tau_loop (st_self s) (st_i s) (st_total s) = tau_loop (st_self s') (st_i s') (st_total s')"
  using assms
  by (subst tau_loop.simps, auto simp: tau_body_def Let_def split: option.splits if_splits)+

lemma sigma_body_loop:
  assumes "sint (st_i s * st_i s) \<le> sint (self_n (st_self s))"
  shows "sigma_body pw s = Inl e \<Longrightarrow>
      sigma_loop pw (st_self s) (st_i s) (st_total s) = Some (Inl e)"
    and "sigma_body pw s = Inr s' \<Longrightarrow>
      sigma_loop pw (st_self s) (st_i s) (st_total s)
        = sigma_loop pw (st_self s') (st_i s') (st_total s')"
  using assms
  by (subst sigma_loop.simps, auto simp: sigma_body_def Let_def split: option.splits if_splits)+

lemma tau_exec_run:
  "\<exists>s' out. tau_exec s = Some (s', out) \<and> st_self s' = st_self s
     \<and> tau_loop (st_self s) (st_i s) (st_total s) = Some out"
proof (induction "unat (- st_i s)" arbitrary: s rule: less_induct)
  case less
  show ?case
  proof (cases "sint (st_i s * st_i s) \<le> sint (self_n (st_self s))")
    case False
    then have "tau_exec s = Some (s, Inr (st_total s))" by (subst tau_exec.simps) simp
    moreover have "tau_loop (st_self s) (st_i s) (st_total s) = Some (Inr (st_total s))"
      using False by (subst tau_loop.simps) simp
    ultimately show ?thesis by simp
  next
    case True
    show ?thesis
    proof (cases "tau_body s")
      case (Inl e)
      then have "tau_exec s = Some (s, Inl e)" using True by (subst tau_exec.simps) simp
      then show ?thesis using tau_body_loop(1) [OF True Inl] by simp
    next
      case (Inr s1)
      note f = tau_body_frame [OF Inr]
      have "unat (- st_i s1) < unat (- st_i s)"
        using f unat_neg_succ [OF tau_body_nonzero [OF Inr]] by simp
      from less.hyps [OF this] obtain s' out where
        r: "tau_exec s1 = Some (s', out)" "st_self s' = st_self s1"
          "tau_loop (st_self s1) (st_i s1) (st_total s1) = Some out" by blast
      have "tau_exec s = tau_exec s1" using True Inr by (subst tau_exec.simps) simp
      then show ?thesis using r f tau_body_loop(2) [OF True Inr] by simp
    qed
  qed
qed

lemma sigma_exec_run:
  "\<exists>s' out. sigma_exec pw s = Some (s', out) \<and> st_self s' = st_self s
     \<and> sigma_loop pw (st_self s) (st_i s) (st_total s) = Some out"
proof (induction "unat (- st_i s)" arbitrary: s rule: less_induct)
  case less
  show ?case
  proof (cases "sint (st_i s * st_i s) \<le> sint (self_n (st_self s))")
    case False
    then have "sigma_exec pw s = Some (s, Inr (st_total s))" by (subst sigma_exec.simps) simp
    moreover have "sigma_loop pw (st_self s) (st_i s) (st_total s) = Some (Inr (st_total s))"
      using False by (subst sigma_loop.simps) simp
    ultimately show ?thesis by simp
  next
    case True
    show ?thesis
    proof (cases "sigma_body pw s")
      case (Inl e)
      then have "sigma_exec pw s = Some (s, Inl e)" using True by (subst sigma_exec.simps) simp
      then show ?thesis using sigma_body_loop(1) [OF True Inl] by simp
    next
      case (Inr s1)
      note f = sigma_body_frame [OF Inr]
      have "unat (- st_i s1) < unat (- st_i s)"
        using f unat_neg_succ [OF sigma_body_nonzero [OF Inr]] by simp
      from less.hyps [OF this] obtain s' out where
        r: "sigma_exec pw s1 = Some (s', out)" "st_self s' = st_self s1"
          "sigma_loop pw (st_self s1) (st_i s1) (st_total s1) = Some out" by blast
      have "sigma_exec pw s = sigma_exec pw s1" using True Inr by (subst sigma_exec.simps) simp
      then show ?thesis using r f sigma_body_loop(2) [OF True Inr] by simp
    qed
  qed
qed

lemma SigmaZ_exec_run:
  "\<exists>s out. SigmaZ_exec pw self = Some (s, out) \<and> st_self s = self
     \<and> SigmaZ_compute pw self = Some (self, out)"
proof (cases "self_z self = 0")
  case True
  from tau_exec_run [of "\<lparr>st_self = self, st_i = 1, st_total = 0\<rparr>"]
  show ?thesis using True by (auto simp: SigmaZ_exec_def SigmaZ_compute_def)
next
  case False
  from sigma_exec_run [of pw "\<lparr>st_self = self, st_i = 1, st_total = 0\<rparr>"]
  show ?thesis using False by (auto simp: SigmaZ_exec_def SigmaZ_compute_def)
qed

text \<open>
  C8. \<^verbatim>\<open>compute()\<close> on a validly constructed instance returns (a value or an exception) and
  leaves the fields \<open>n\<close> and \<open>z\<close> of the instance as the constructor stored them; a second
  call on the instance it leaves returns the same outcome and leaves the fields again. The
  outcome is the one that \<open>SigmaZ_compute\<close>, a function of \<open>n\<close> and \<open>z\<close>, gives.
\<close>

theorem SigmaZ_exec_frame:
  assumes "SigmaZ_cinit n z = Inr self"
  shows "\<exists>s out. SigmaZ_exec pw self = Some (s, out)
      \<and> self_n (st_self s) = n \<and> self_z (st_self s) = z
      \<and> (\<exists>s2. SigmaZ_exec pw (st_self s) = Some (s2, out)
             \<and> self_n (st_self s2) = n \<and> self_z (st_self s2) = z)
      \<and> SigmaZ_compute pw \<lparr>self_n = n, self_z = z\<rparr> = Some (\<lparr>self_n = n, self_z = z\<rparr>, out)"
proof -
  have self: "self = \<lparr>self_n = n, self_z = z\<rparr>" by (rule cinit_valid(3) [OF assms])
  obtain s out where r: "SigmaZ_exec pw self = Some (s, out)" "st_self s = self"
    "SigmaZ_compute pw self = Some (self, out)"
    using SigmaZ_exec_run [of pw self] by blast
  have "SigmaZ_exec pw (st_self s) = Some (s, out)" using r by simp
  then show ?thesis using r self by auto
qed

theorem SigmaZ_exec_frame_witness:
  "SigmaZ_cinit 6 2 = Inr \<lparr>self_n = 6, self_z = 2\<rparr>
   \<and> SigmaZ_exec exact_pow \<lparr>self_n = 6, self_z = 2\<rparr>
       = Some (\<lparr>st_self = \<lparr>self_n = 6, self_z = 2\<rparr>, st_i = 3, st_total = 50\<rparr>, Inr 50)
   \<and> (\<exists>s out. SigmaZ_exec exact_pow \<lparr>self_n = 6, self_z = 2\<rparr> = Some (s, out)
        \<and> self_n (st_self s) = 6 \<and> self_z (st_self s) = 2
        \<and> (\<exists>s2. SigmaZ_exec exact_pow (st_self s) = Some (s2, out)
               \<and> self_n (st_self s2) = 6 \<and> self_z (st_self s2) = 2)
        \<and> SigmaZ_compute exact_pow \<lparr>self_n = 6, self_z = 2\<rparr>
            = Some (\<lparr>self_n = 6, self_z = 2\<rparr>, out))"
proof -
  have c: "SigmaZ_cinit 6 2 = Inr \<lparr>self_n = 6, self_z = 2\<rparr>" by (simp add: SigmaZ_cinit_def)
  have e: "SigmaZ_exec exact_pow \<lparr>self_n = 6, self_z = 2\<rparr>
      = Some (\<lparr>st_self = \<lparr>self_n = 6, self_z = 2\<rparr>, st_i = 3, st_total = 50\<rparr>, Inr 50)"
    by (simp add: SigmaZ_exec_def sigma_exec.simps sigma_body_def div_error_def c_mod_def
        c_floordiv_def exact_pow_def)
  from SigmaZ_exec_frame [where pw = exact_pow, OF c] show ?thesis using c e by blast
qed

end
